theory Spec2Isabelle
  imports Main "HOL-Library.Word" "HOL-Library.Sublist"
begin

section \<open>Regular expressions as used by \<open>OpenGLOptions::addShader\<close>\<close>

text \<open>
  The two patterns of \<open>qt_opengloptions.cpp\<close> are written with \<open>QRegularExpression\<close>
  (PCRE2, \<open>MultilineOption\<close>, no Unicode properties, newline convention LF). The fragment
  of the pattern language they use is embedded here: literal text, the classes
  \<open>\s\<close>, \<open>\w\<close>, \<open>[\.\d]\<close> and \<open>.\<close>, greedy \<open>*\<close> and \<open>+\<close> and lazy \<open>*?\<close> over one class,
  greedy \<open>?\<close>, capturing groups, sequencing and the line anchor \<open>^\<close>.

  The meaning of a pattern is the list of all ways it can match at a position, in the
  order in which a backtracking matcher tries them; the first entry is the match that
  PCRE reports.
\<close>

datatype cclass = Space | Word | DotDigit | AnyChar

definition newline :: char where
  "newline = CHR 0x0A"

fun in_class :: "cclass \<Rightarrow> char \<Rightarrow> bool" where
  "in_class Space c = (c \<in> set [CHR '' '', CHR 0x09, CHR 0x0A, CHR 0x0B, CHR 0x0C, CHR 0x0D])"
| "in_class Word c = (c \<in> set ''abcdefghijklmnopqrstuvwxyzABCDEFGHIJKLMNOPQRSTUVWXYZ0123456789_'')"
| "in_class DotDigit c = (c \<in> set ''.0123456789'')"
| "in_class AnyChar c = (c \<noteq> newline)"

datatype rx =
    Bol
  | Lit string
  | Star cclass
  | Plus cclass
  | LazyStar cclass
  | Opt rx
  | Grp nat rx
  | Seq rx rx

text \<open>
  A matcher state: the subject text before the current position (reversed, so that its
  head is the preceding character), the text from the current position on, and the
  groups captured so far.
\<close>

type_synonym mstate = "string \<times> string \<times> (nat \<times> string) list"

text \<open>All ways of consuming a run of characters of a class, longest first (greedy).\<close>

fun greedy_splits :: "(char \<Rightarrow> bool) \<Rightarrow> string \<Rightarrow> string \<Rightarrow> (string \<times> string) list" where
  "greedy_splits P b [] = [(b, [])]"
| "greedy_splits P b (c # a) =
     (if P c then greedy_splits P (c # b) a @ [(b, c # a)] else [(b, c # a)])"

text \<open>The same, shortest first (lazy).\<close>

fun lazy_splits :: "(char \<Rightarrow> bool) \<Rightarrow> string \<Rightarrow> string \<Rightarrow> (string \<times> string) list" where
  "lazy_splits P b [] = [(b, [])]"
| "lazy_splits P b (c # a) =
     (b, c # a) # (if P c then lazy_splits P (c # b) a else [])"

fun ms :: "rx \<Rightarrow> mstate \<Rightarrow> mstate list" where
  "ms Bol (b, a, cs) =
     (if b = [] \<or> (hd b = newline \<and> a \<noteq> []) then [(b, a, cs)] else [])"
| "ms (Lit s) (b, a, cs) =
     (if take (length s) a = s then [(rev s @ b, drop (length s) a, cs)] else [])"
| "ms (Star k) (b, a, cs) = map (\<lambda>(b', a'). (b', a', cs)) (greedy_splits (in_class k) b a)"
| "ms (Plus k) (b, a, cs) =
     (case a of [] \<Rightarrow> []
      | c # a' \<Rightarrow> if in_class k c
                 then map (\<lambda>(b', a'). (b', a', cs)) (greedy_splits (in_class k) (c # b) a')
                 else [])"
| "ms (LazyStar k) (b, a, cs) = map (\<lambda>(b', a'). (b', a', cs)) (lazy_splits (in_class k) b a)"
| "ms (Opt r) s = ms r s @ [s]"
| "ms (Grp n r) (b, a, cs) =
     map (\<lambda>(b', a', cs'). (b', a', (n, rev (take (length b' - length b) b')) # cs'))
         (ms r (b, a, cs))"
| "ms (Seq r1 r2) s = concat (map (ms r2) (ms r1 s))"

text \<open>One match attempt at a fixed position: the first alternative, if any.\<close>

definition rx_exec :: "rx \<Rightarrow> string \<Rightarrow> string \<Rightarrow> mstate option" where
  "rx_exec r b a = (case ms r (b, a, []) of [] \<Rightarrow> None | s # _ \<Rightarrow> Some s)"

text \<open>
  \<open>QRegularExpression::match\<close>: the leftmost position at which an attempt succeeds.
\<close>

fun rx_search :: "rx \<Rightarrow> string \<Rightarrow> string \<Rightarrow> mstate option" where
  "rx_search r b [] = rx_exec r b []"
| "rx_search r b (c # a) =
     (case rx_exec r b (c # a) of Some s \<Rightarrow> Some s | None \<Rightarrow> rx_search r (c # b) a)"

definition rx_match :: "rx \<Rightarrow> string \<Rightarrow> mstate option" where
  "rx_match r subject = rx_search r [] subject"

definition captured :: "nat \<Rightarrow> mstate \<Rightarrow> string" where
  "captured n s = (case map_of (snd (snd s)) n of Some t \<Rightarrow> t | None \<Rightarrow> [])"

text \<open>
  \<open>QString::remove(const QRegularExpression &)\<close> removes every occurrence: the subject is
  scanned from left to right, each match found is dropped and the scan goes on at the end
  of that match. The patterns of this file never match the empty string; the length test
  only makes the termination of the scan evident.
\<close>

function remove_from :: "rx \<Rightarrow> string \<Rightarrow> string \<Rightarrow> string" where
  "remove_from r b [] = []"
| "remove_from r b (c # a) =
     (case rx_exec r b (c # a) of
        None \<Rightarrow> c # remove_from r (c # b) a
      | Some (b', a', cs) \<Rightarrow>
          if length a' < length (c # a) then remove_from r b' a'
          else c # remove_from r (c # b) a)"
  by pat_completeness auto
termination
  by (relation "measure (\<lambda>(r, b, a). length a)") auto

definition qstring_remove :: "string \<Rightarrow> rx \<Rightarrow> string" where
  "qstring_remove subject r = remove_from r [] subject"

fun seqs :: "rx list \<Rightarrow> rx" where
  "seqs [] = Lit []"
| "seqs [r] = r"
| "seqs (r # rs) = Seq r (seqs rs)"

definition dquote :: char where
  "dquote = CHR 0x22"

text \<open>
  The parameter pattern of \<open>addShader\<close>:
  \<^verbatim>\<open>^\s*#pragma\s+parameter\s+(\w+)\s+"(.+)"\s+(-?[\.\d]+)\s+(-?[\.\d]+)\s+(-?[\.\d]+)(\s+-?[\.\d]+)?.*?\n\<close>
\<close>

definition number_rx :: rx where
  "number_rx = Seq (Opt (Lit ''-'')) (Plus DotDigit)"

definition parameter_rx :: rx where
  "parameter_rx = seqs
     [Bol, Star Space, Lit ''#pragma'', Plus Space, Lit ''parameter'', Plus Space,
      Grp 1 (Plus Word), Plus Space,
      Lit [dquote], Grp 2 (Plus AnyChar), Lit [dquote], Plus Space,
      Grp 3 number_rx, Plus Space,
      Grp 4 number_rx, Plus Space,
      Grp 5 number_rx,
      Opt (Grp 6 (Seq (Plus Space) number_rx)),
      LazyStar AnyChar, Lit [newline]]"

text \<open>The version pattern of \<open>addShader\<close>: \<^verbatim>\<open>^\s*(#version\s+\w+)\<close>\<close>

definition version_rx :: rx where
  "version_rx = seqs
     [Bol, Star Space, Grp 1 (seqs [Lit ''#version'', Plus Space, Plus Word])]"

section \<open>\<open>QStringList::join\<close> and \<open>QString::arg\<close>\<close>

fun join :: "char \<Rightarrow> string list \<Rightarrow> string" where
  "join sep [] = []"
| "join sep [x] = x"
| "join sep (x # y # ys) = x @ sep # join sep (y # ys)"

text \<open>
  \<open>QString::arg(a)\<close> replaces every occurrence of the lowest-numbered place marker
  (\<open>%N\<close> or \<open>%LN\<close> with one or two digits) by \<open>a\<close>; a string without a marker is returned
  as it is. Only the ASCII digits are taken as digits here.
\<close>

definition digitValue :: "char \<Rightarrow> nat option" where
  "digitValue c = map_of
     [(CHR ''0'', 0), (CHR ''1'', 1), (CHR ''2'', 2), (CHR ''3'', 3), (CHR ''4'', 4),
      (CHR ''5'', 5), (CHR ''6'', 6), (CHR ''7'', 7), (CHR ''8'', 8), (CHR ''9'', 9)] c"

text \<open>
  What follows a \<open>%\<close>: an optional \<open>L\<close>, then one or two digits. The result is the marker's
  number and how many characters after the \<open>%\<close> belong to it.
\<close>

definition parse_escape :: "string \<Rightarrow> (nat \<times> nat) option" where
  "parse_escape cs =
     (let l = (case cs of [] \<Rightarrow> 0 | c # _ \<Rightarrow> if c = CHR ''L'' then 1 else (0::nat))
      in case drop l cs of
           [] \<Rightarrow> None
         | d1 # r1 \<Rightarrow>
             (case digitValue d1 of
                None \<Rightarrow> None
              | Some v1 \<Rightarrow>
                  (case r1 of
                     [] \<Rightarrow> Some (v1, l + 1)
                   | d2 # _ \<Rightarrow>
                       (case digitValue d2 of
                          None \<Rightarrow> Some (v1, l + 1)
                        | Some v2 \<Rightarrow> Some (10 * v1 + v2, l + 2)))))"

datatype arg_token = Plain char | Escape nat string

function arg_tokens :: "string \<Rightarrow> arg_token list" where
  "arg_tokens [] = []"
| "arg_tokens (c # cs) =
     (if c = CHR ''%'' then
        (case parse_escape cs of
           None \<Rightarrow> Plain c # arg_tokens cs
         | Some (n, len) \<Rightarrow> Escape n (c # take len cs) # arg_tokens (drop len cs))
      else Plain c # arg_tokens cs)"
  by pat_completeness auto
termination
  by (relation "measure length") auto

fun escape_numbers :: "arg_token list \<Rightarrow> nat list" where
  "escape_numbers [] = []"
| "escape_numbers (Plain c # ts) = escape_numbers ts"
| "escape_numbers (Escape n t # ts) = n # escape_numbers ts"

fun replace_escape :: "nat \<Rightarrow> string \<Rightarrow> arg_token \<Rightarrow> string" where
  "replace_escape m a (Plain c) = [c]"
| "replace_escape m a (Escape n t) = (if n = m then a else t)"

definition qstring_arg :: "string \<Rightarrow> string \<Rightarrow> string" where
  "qstring_arg s a =
     (let ts = arg_tokens s in
      case escape_numbers ts of
        [] \<Rightarrow> s
      | n # ns \<Rightarrow> concat (map (replace_escape (fold min ns n) a) ts))"

section \<open>The preset document (\<open>QJsonDocument\<close>)\<close>

text \<open>
  The values of a parsed document. \<open>'n\<close> is the type of JSON numbers. An object is listed
  in the order in which \<open>QJsonObject\<close> keeps it (by key).
\<close>

datatype 'n QJsonValue =
    JNull
  | JBool bool
  | JDouble 'n
  | JString string
  | JArray "'n QJsonValue list"
  | JObject "(string \<times> 'n QJsonValue) list"
  | JUndefined

datatype 'n QJsonDocument =
    NullDocument
  | ArrayDocument "'n QJsonValue list"
  | ObjectDocument "(string \<times> 'n QJsonValue) list"

definition isNull :: "'n QJsonDocument \<Rightarrow> bool" where
  "isNull d = (case d of NullDocument \<Rightarrow> True | _ \<Rightarrow> False)"

definition object_value :: "(string \<times> 'n QJsonValue) list \<Rightarrow> string \<Rightarrow> 'n QJsonValue" where
  "object_value kvs key = (case map_of kvs key of Some v \<Rightarrow> v | None \<Rightarrow> JUndefined)"

text \<open>\<open>QJsonDocument::operator[]\<close>: undefined unless the document is an object.\<close>

definition document_value :: "'n QJsonDocument \<Rightarrow> string \<Rightarrow> 'n QJsonValue" where
  "document_value d key = (case d of ObjectDocument kvs \<Rightarrow> object_value kvs key | _ \<Rightarrow> JUndefined)"

definition toArray :: "'n QJsonValue \<Rightarrow> 'n QJsonValue list" where
  "toArray v = (case v of JArray xs \<Rightarrow> xs | _ \<Rightarrow> [])"

definition toObject :: "'n QJsonValue \<Rightarrow> (string \<times> 'n QJsonValue) list" where
  "toObject v = (case v of JObject kvs \<Rightarrow> kvs | _ \<Rightarrow> [])"

definition toString :: "'n QJsonValue \<Rightarrow> string" where
  "toString v = (case v of JString s \<Rightarrow> s | _ \<Rightarrow> [])"

definition keys :: "(string \<times> 'n QJsonValue) list \<Rightarrow> string list" where
  "keys kvs = map fst kvs"

section \<open>The collaborators: files, the JSON parser, the OpenGL driver\<close>

datatype stage = Vertex | Fragment

type_synonym cint = "32 word"

text \<open>
  A \<open>QOpenGLShaderProgram\<close>: the stages compiled and attached so far, and whether the last
  link succeeded.
\<close>

record QOpenGLShaderProgram =
  attached :: "(stage \<times> string) list"
  linked :: bool

text \<open>
  What the code calls and this repository does not define is a parameter of the model:
  \<open>readAll\<close> is \<open>QFile::open\<close> followed by \<open>readAll\<close> (\<open>None\<close> when the file cannot be
  opened), \<open>fromJson\<close> is \<open>QJsonDocument::fromJson\<close>, \<open>variantToFloat\<close> is
  \<open>QJsonValue::toVariant().toFloat()\<close>, and the \<open>gl\<close> fields are the driver's answers.
  \<open>'f\<close> is the type of \<open>float\<close> values, which the code only passes on.
\<close>

record ('n, 'f) backend =
  readAll :: "string \<Rightarrow> string option"
  fromJson :: "string \<Rightarrow> 'n QJsonDocument"
  variantToFloat :: "'n QJsonValue \<Rightarrow> 'f"
  glCompile :: "stage \<Rightarrow> string \<Rightarrow> bool"
  glLink :: "(stage \<times> string) list \<Rightarrow> bool"
  glGetAttribLocation :: "(stage \<times> string) list \<Rightarrow> string \<Rightarrow> cint"
  glGetUniformLocation :: "(stage \<times> string) list \<Rightarrow> string \<Rightarrow> cint"

definition new_program :: QOpenGLShaderProgram where
  "new_program = \<lparr>attached = [], linked = False\<rparr>"

definition addShaderFromSourceCode ::
  "('n, 'f) backend \<Rightarrow> stage \<Rightarrow> string \<Rightarrow> QOpenGLShaderProgram \<Rightarrow> bool \<times> QOpenGLShaderProgram" where
  "addShaderFromSourceCode env st src p =
     (if glCompile env st src then (True, p\<lparr>attached := attached p @ [(st, src)]\<rparr>)
      else (False, p))"

definition link :: "('n, 'f) backend \<Rightarrow> QOpenGLShaderProgram \<Rightarrow> bool \<times> QOpenGLShaderProgram" where
  "link env p = (let ok = glLink env (attached p) in (ok, p\<lparr>linked := ok\<rparr>))"

definition attributeLocation :: "('n, 'f) backend \<Rightarrow> QOpenGLShaderProgram \<Rightarrow> string \<Rightarrow> cint" where
  "attributeLocation env p name =
     (if linked p then glGetAttribLocation env (attached p) name else - 1)"

definition uniformLocation :: "('n, 'f) backend \<Rightarrow> QOpenGLShaderProgram \<Rightarrow> string \<Rightarrow> cint" where
  "uniformLocation env p name =
     (if linked p then glGetUniformLocation env (attached p) name else - 1)"

section \<open>\<open>OpenGLShaderPass\<close>\<close>

record 'f OpenGLShaderPass =
  m_shader :: QOpenGLShaderProgram
  m_path :: string
  m_vertex_coord :: cint
  m_tex_coord :: cint
  m_color :: cint
  m_mvp_matrix :: cint
  m_input_size :: cint
  m_output_size :: cint
  m_texture_size :: cint
  m_frame_count :: cint
  m_parameters :: "(cint \<times> 'f) list"

text \<open>The loop of the constructor's body: a parameter is kept when its name is a uniform.\<close>

fun resolve_parameters ::
  "('n, 'f) backend \<Rightarrow> QOpenGLShaderProgram \<Rightarrow> (string \<times> 'f) list \<Rightarrow> (cint \<times> 'f) list" where
  "resolve_parameters env shader [] = []"
| "resolve_parameters env shader (parameter # parameters) =
     (let location = uniformLocation env shader (fst parameter)
      in if location \<noteq> - 1
         then (location, snd parameter) # resolve_parameters env shader parameters
         else resolve_parameters env shader parameters)"

definition OpenGLShaderPass ::
  "('n, 'f) backend \<Rightarrow> QOpenGLShaderProgram \<Rightarrow> string \<Rightarrow> (string \<times> 'f) list \<Rightarrow> 'f OpenGLShaderPass" where
  "OpenGLShaderPass env shader path parameters =
     \<lparr>m_shader = shader,
      m_path = path,
      m_vertex_coord = attributeLocation env shader ''VertexCoord'',
      m_tex_coord = attributeLocation env shader ''TexCoord'',
      m_color = attributeLocation env shader ''Color'',
      m_mvp_matrix = uniformLocation env shader ''MVPMatrix'',
      m_input_size = uniformLocation env shader ''InputSize'',
      m_output_size = uniformLocation env shader ''OutputSize'',
      m_texture_size = uniformLocation env shader ''TextureSize'',
      m_frame_count = uniformLocation env shader ''FrameCount'',
      m_parameters = resolve_parameters env shader parameters\<rparr>"

section \<open>\<open>OpenGLOptions\<close>\<close>

datatype RenderBehaviorType = SyncWithVideo | TargetFramerate

datatype FilterType = Nearest | Linear

record 'f OpenGLOptions =
  m_renderBehavior :: RenderBehaviorType
  m_framerate :: cint
  m_vsync :: bool
  m_filter :: FilterType
  m_shaders :: "'f OpenGLShaderPass list"
  m_glslVersion :: string

text \<open>
  The persisted configuration: the globals of \<open>86box.h\<close> that the class reads and writes.
  \<open>video_shader\<close> is a character array; the model keeps the C string it holds.
\<close>

record config =
  video_vsync :: cint
  video_framerate :: cint
  video_filter_method :: cint
  video_shader :: string

text \<open>Every exception of the file is a \<open>std::runtime_error\<close>; the model keeps where it came from.\<close>

datatype runtime_error =
    OpenError string
  | EmptyShaderPath
  | VertexCompileError string
  | FragmentCompileError string
  | LinkError string

text \<open>
  A member function that may throw returns the exception, if any, together with the object
  as it is at that moment: what was appended to \<open>m_shaders\<close> before the throw stays there.
\<close>

datatype outcome = Done | Thrown runtime_error

definition vertex_shader :: string where
  "vertex_shader =
     ''in vec2 VertexCoord;\<newline>'' @
     ''in vec2 TexCoord;\<newline>'' @
     ''out vec2 tex;\<newline>'' @
     ''void main(){\<newline>'' @
     ''    gl_Position = vec4(VertexCoord, 0.0, 1.0);\<newline>'' @
     ''    tex = TexCoord;\<newline>'' @
     ''}\<newline>''"

definition fragment_shader :: string where
  "fragment_shader =
     ''in vec2 tex;\<newline>'' @
     ''uniform sampler2D texsampler;\<newline>'' @
     ''out vec4 color;\<newline>'' @
     ''void main() {\<newline>'' @
     ''    color = texture(texsampler, tex);\<newline>'' @
     ''}\<newline>''"

definition readTextFile :: "('n, 'f) backend \<Rightarrow> string \<Rightarrow> runtime_error + string" where
  "readTextFile env path =
     (case readAll env path of None \<Rightarrow> Inl (OpenError path) | Some bytes \<Rightarrow> Inr bytes)"

definition setRenderBehavior :: "RenderBehaviorType \<Rightarrow> 'f OpenGLOptions \<Rightarrow> 'f OpenGLOptions" where
  "setRenderBehavior v this = this\<lparr>m_renderBehavior := v\<rparr>"

definition setFrameRate :: "cint \<Rightarrow> 'f OpenGLOptions \<Rightarrow> 'f OpenGLOptions" where
  "setFrameRate v this = this\<lparr>m_framerate := v\<rparr>"

definition setVSync :: "bool \<Rightarrow> 'f OpenGLOptions \<Rightarrow> 'f OpenGLOptions" where
  "setVSync v this = this\<lparr>m_vsync := v\<rparr>"

definition setFilter :: "FilterType \<Rightarrow> 'f OpenGLOptions \<Rightarrow> 'f OpenGLOptions" where
  "setFilter v this = this\<lparr>m_filter := v\<rparr>"

definition renderBehavior :: "'f OpenGLOptions \<Rightarrow> RenderBehaviorType" where
  "renderBehavior this = m_renderBehavior this"

definition framerate :: "'f OpenGLOptions \<Rightarrow> cint" where
  "framerate this = m_framerate this"

definition vSync :: "'f OpenGLOptions \<Rightarrow> bool" where
  "vSync this = m_vsync this"

text \<open>\<open>OpenGLOptions::filter\<close> reads the global, not the member.\<close>

definition filter_gl :: "'f OpenGLOptions \<Rightarrow> config \<Rightarrow> FilterType" where
  "filter_gl this cfg = (if video_filter_method cfg = 0 then Nearest else Linear)"

text \<open>The version step of \<open>addShader\<close>: the effective version line and the stripped source.\<close>

definition extract_version :: "string \<Rightarrow> string \<Rightarrow> string \<times> string" where
  "extract_version glslVersion source =
     (case rx_match version_rx source of
        Some match \<Rightarrow> (captured 1 match, qstring_remove source version_rx)
      | None \<Rightarrow> (glslVersion, source))"

definition header :: "string \<Rightarrow> string list" where
  "header version_line =
     [version_line,
      ''#extension GL_ARB_shading_language_420pack : enable'',
      ''#define PARAMETER_UNIFORM'',
      ''#define %1'',
      ''#line 1'',
      []]"

text \<open>
  The text handed to the compiler for one stage: the parameter lines are removed, the
  version is extracted, and the joined header, with the stage macro put in by
  \<open>QString::arg\<close>, is put in front of what is left.
\<close>

definition stage_text :: "string \<Rightarrow> string \<Rightarrow> string \<Rightarrow> string" where
  "stage_text macro glslVersion source0 =
     (let source1 = qstring_remove source0 parameter_rx;
          (version_line, source) = extract_version glslVersion source1;
          prefix = join newline (header version_line)
      in qstring_arg prefix macro @ source)"

text \<open>\<open>addShader(QString source, const QString &path, QList<QPair<QString, float>> parameters)\<close>\<close>

definition addShader_source ::
  "('n, 'f) backend \<Rightarrow> string \<Rightarrow> string \<Rightarrow> (string \<times> 'f) list \<Rightarrow> 'f OpenGLOptions
     \<Rightarrow> outcome \<times> 'f OpenGLOptions" where
  "addShader_source env source0 path parameters this =
     (let shader = new_program;
          (ok_v, shader_v) =
             addShaderFromSourceCode env Vertex
               (stage_text ''VERTEX'' (m_glslVersion this) source0) shader
      in if \<not> ok_v then (Thrown (VertexCompileError path), this)
         else
           let (ok_f, shader_f) =
                 addShaderFromSourceCode env Fragment
                   (stage_text ''FRAGMENT'' (m_glslVersion this) source0) shader_v
           in if \<not> ok_f then (Thrown (FragmentCompileError path), this)
              else
                let (ok_l, shader_l) = link env shader_f
                in if \<not> ok_l then (Thrown (LinkError path), this)
                   else (Done, this\<lparr>m_shaders := m_shaders this @
                                        [OpenGLShaderPass env shader_l path parameters]\<rparr>))"

text \<open>The body of the loop over \<open>json["shaders"].toArray()\<close> in \<open>addShader(const QString &path)\<close>.\<close>

fun addShader_items ::
  "('n, 'f) backend \<Rightarrow> 'n QJsonValue list \<Rightarrow> 'f OpenGLOptions \<Rightarrow> outcome \<times> 'f OpenGLOptions" where
  "addShader_items env [] this = (Done, this)"
| "addShader_items env (item # items) this =
     (let shader = toObject item;
          sPath = toString (object_value shader ''path'')
      in if sPath = [] then (Thrown EmptyShaderPath, this)
         else
           let params = toObject (object_value shader ''parameters'');
               parameters = map (\<lambda>key. (key, variantToFloat env (object_value params key))) (keys params)
           in case readTextFile env sPath of
                Inl e \<Rightarrow> (Thrown e, this)
              | Inr text \<Rightarrow>
                  (case addShader_source env text sPath parameters this of
                     (Thrown e, this') \<Rightarrow> (Thrown e, this')
                   | (Done, this') \<Rightarrow> addShader_items env items this'))"

text \<open>\<open>addShader(const QString &path)\<close>\<close>

definition addShader :: "('n, 'f) backend \<Rightarrow> string \<Rightarrow> 'f OpenGLOptions \<Rightarrow> outcome \<times> 'f OpenGLOptions" where
  "addShader env path this =
     (case readTextFile env path of
        Inl e \<Rightarrow> (Thrown e, this)
      | Inr bytes \<Rightarrow>
          (let json = fromJson env bytes
           in if \<not> isNull json
              then addShader_items env (toArray (document_value json ''shaders'')) this
              else addShader_source env bytes path [] this))"

definition addDefaultShader :: "('n, 'f) backend \<Rightarrow> 'f OpenGLOptions \<Rightarrow> 'f OpenGLOptions" where
  "addDefaultShader env this =
     (let shader = new_program;
          (_, shader_v) = addShaderFromSourceCode env Vertex
                            (m_glslVersion this @ [newline] @ vertex_shader) shader;
          (_, shader_f) = addShaderFromSourceCode env Fragment
                            (m_glslVersion this @ [newline] @ fragment_shader) shader_v;
          (_, shader_l) = link env shader_f
      in this\<lparr>m_shaders := m_shaders this @ [OpenGLShaderPass env shader_l [] []]\<rparr>)"

text \<open>The members as their in-class initialisers leave them.\<close>

definition initial_options :: "string \<Rightarrow> 'f OpenGLOptions" where
  "initial_options glslVersion =
     \<lparr>m_renderBehavior = SyncWithVideo,
      m_framerate = - 1,
      m_vsync = False,
      m_filter = Nearest,
      m_shaders = [],
      m_glslVersion = glslVersion\<rparr>"

text \<open>
  The constructor. It reads the configuration and returns the object; the
  \<open>catch (const std::runtime_error &)\<close> is the \<open>Thrown\<close> branch.
\<close>

definition OpenGLOptions :: "('n, 'f) backend \<Rightarrow> config \<Rightarrow> bool \<Rightarrow> string \<Rightarrow> 'f OpenGLOptions" where
  "OpenGLOptions env cfg loadConfig glslVersion =
     (let this0 = (initial_options glslVersion)
                    \<lparr>m_filter := if video_filter_method cfg = 0 then Nearest else Linear\<rparr>
      in if \<not> loadConfig then this0
         else
           let this1 = this0
                 \<lparr>m_vsync := video_vsync cfg \<noteq> 0,
                  m_framerate := video_framerate cfg,
                  m_renderBehavior := if video_framerate cfg = - 1 then SyncWithVideo
                                      else TargetFramerate\<rparr>;
               shaderPath = video_shader cfg
           in if shaderPath = [] then addDefaultShader env this1
              else
                case addShader env shaderPath this1 of
                  (Done, this2) \<Rightarrow> this2
                | (Thrown e, this2) \<Rightarrow> addDefaultShader env this2)"

text \<open>
  \<open>qstrncpy(dst, src, len)\<close>: at most \<open>len - 1\<close> characters of the C string \<open>src\<close>.
\<close>

definition qstrncpy :: "string \<Rightarrow> string \<Rightarrow> nat \<Rightarrow> string" where
  "qstrncpy dst src len =
     (if 0 < len then take (len - 1) (takeWhile (\<lambda>c. c \<noteq> CHR 0x00) src) else dst)"

text \<open>
  \<open>OpenGLOptions::save\<close>. \<open>sizeof_video_shader\<close> is the size of the array \<open>video_shader\<close>,
  declared in \<open>86box.h\<close>. \<open>m_shaders.first()\<close> on an empty list has no defined result:
  the model returns \<open>None\<close> there.
\<close>

definition save :: "nat \<Rightarrow> 'f OpenGLOptions \<Rightarrow> config \<Rightarrow> config option" where
  "save sizeof_video_shader this cfg =
     (let cfg1 = cfg\<lparr>video_vsync := if m_vsync this then 1 else 0,
                     video_framerate := if m_renderBehavior this = SyncWithVideo then - 1
                                        else m_framerate this,
                     video_filter_method := if m_filter this = Nearest then 0 else 1\<rparr>
      in case m_shaders this of
           [] \<Rightarrow> None
         | first # _ \<Rightarrow>
             (let path = m_path first
              in if path \<noteq> []
                 then Some (cfg1\<lparr>video_shader := qstrncpy (video_shader cfg1) path sizeof_video_shader\<rparr>)
                 else Some (cfg1\<lparr>video_shader := []\<rparr>)))"

section \<open>The members other than the pipeline\<close>

definition scalars ::
  "'f OpenGLOptions \<Rightarrow> RenderBehaviorType \<times> cint \<times> bool \<times> FilterType \<times> string" where
  "scalars this =
     (m_renderBehavior this, m_framerate this, m_vsync this, m_filter this, m_glslVersion this)"

text \<open>The object between the reading of the configuration and the loading of the shader.\<close>

definition configured :: "config \<Rightarrow> string \<Rightarrow> 'f OpenGLOptions" where
  "configured cfg v =
     (initial_options v)
       \<lparr>m_filter := if video_filter_method cfg = 0 then Nearest else Linear,
        m_vsync := video_vsync cfg \<noteq> 0,
        m_framerate := video_framerate cfg,
        m_renderBehavior := if video_framerate cfg = - 1 then SyncWithVideo else TargetFramerate\<rparr>"

section \<open>Patterns that cannot match the empty text, and the characters a match can start with\<close>

fun nullable :: "rx \<Rightarrow> bool" where
  "nullable Bol = True"
| "nullable (Lit s) = (s = [])"
| "nullable (Star k) = True"
| "nullable (Plus k) = False"
| "nullable (LazyStar k) = True"
| "nullable (Opt r) = True"
| "nullable (Grp n r) = nullable r"
| "nullable (Seq r1 r2) = (nullable r1 \<and> nullable r2)"

fun first :: "rx \<Rightarrow> char \<Rightarrow> bool" where
  "first Bol d = False"
| "first (Lit s) d = (s \<noteq> [] \<and> hd s = d)"
| "first (Star k) d = in_class k d"
| "first (Plus k) d = in_class k d"
| "first (LazyStar k) d = in_class k d"
| "first (Opt r) d = first r d"
| "first (Grp n r) d = first r d"
| "first (Seq r1 r2) d = (first r1 d \<or> (nullable r1 \<and> first r2 d))"

section \<open>Sources made of lines with and without a version directive\<close>






text \<open>The characters that a match of a pattern can consume.\<close>

fun may_consume :: "rx \<Rightarrow> char \<Rightarrow> bool" where
  "may_consume Bol c = False"
| "may_consume (Lit s) c = (c \<in> set s)"
| "may_consume (Star k) c = in_class k c"
| "may_consume (Plus k) c = in_class k c"
| "may_consume (LazyStar k) c = in_class k c"
| "may_consume (Opt r) c = may_consume r c"
| "may_consume (Grp n r) c = may_consume r c"
| "may_consume (Seq r1 r2) c = (may_consume r1 c \<or> may_consume r2 c)"

text \<open>
  The effective version line and the body of a source: the parameter lines are removed
  first, then the version is extracted, as in \<open>addShader\<close>.
\<close>

definition version_and_body :: "string \<Rightarrow> string \<Rightarrow> string \<times> string" where
  "version_and_body glslVersion source0 =
     extract_version glslVersion (qstring_remove source0 parameter_rx)"

section \<open>Sources made of lines with and without a parameter declaration\<close>

text \<open>
  The parts of a line \<open>#pragma parameter IDENTIFIER "DESCRIPTION" INITIAL MINIMUM MAXIMUM\<close>:
  the white space in front of it (blank lines and indentation), the gaps between its
  fields, the fields, and what follows the maximum on the line (a step, a comment).
\<close>

record pragma_line =
  p_lead :: string
  p_gap1 :: string
  p_gap2 :: string
  p_identifier :: string
  p_gap3 :: string
  p_description :: string
  p_gap4 :: string
  p_initial :: string
  p_gap5 :: string
  p_minimum :: string
  p_gap6 :: string
  p_maximum :: string
  p_tail :: string

definition pragma_text :: "pragma_line \<Rightarrow> string" where
  "pragma_text p =
     p_lead p @ ''#pragma'' @ p_gap1 p @ ''parameter'' @ p_gap2 p @ p_identifier p @ p_gap3 p @
     [dquote] @ p_description p @ [dquote] @ p_gap4 p @ p_initial p @ p_gap5 p @
     p_minimum p @ p_gap6 p @ p_maximum p @ p_tail p @ [newline]"

text \<open>White space between two fields of a line.\<close>

definition gap :: "string \<Rightarrow> bool" where
  "gap s = (s \<noteq> [] \<and> list_all (in_class Space) s \<and> newline \<notin> set s)"

text \<open>An optional minus sign and then digits and dots.\<close>

fun is_number :: "string \<Rightarrow> bool" where
  "is_number [] = False"
| "is_number (c # ds) =
     (if c = CHR ''-'' then ds \<noteq> [] \<and> list_all (in_class DotDigit) ds
      else list_all (in_class DotDigit) (c # ds))"

definition pragma_ok :: "pragma_line \<Rightarrow> bool" where
  "pragma_ok p =
     (list_all (in_class Space) (p_lead p) \<and>
      gap (p_gap1 p) \<and> gap (p_gap2 p) \<and> gap (p_gap3 p) \<and>
      gap (p_gap4 p) \<and> gap (p_gap5 p) \<and> gap (p_gap6 p) \<and>
      p_identifier p \<noteq> [] \<and> list_all (in_class Word) (p_identifier p) \<and>
      p_description p \<noteq> [] \<and> newline \<notin> set (p_description p) \<and>
      dquote \<notin> set (p_description p) \<and>
      is_number (p_initial p) \<and> is_number (p_minimum p) \<and> is_number (p_maximum p) \<and>
      newline \<notin> set (p_tail p) \<and> dquote \<notin> set (p_tail p) \<and>
      (p_tail p = [] \<or> \<not> in_class DotDigit (hd (p_tail p))))"

text \<open>A character with which a number can start.\<close>

definition number_start :: "char \<Rightarrow> bool" where
  "number_start c = (c = CHR ''-'' \<or> in_class DotDigit c)"

text \<open>
  A piece of a source: a parameter line, or a line whose first character after the
  white space is that of \<open>body\<close>, which starts neither with \<open>#pragma\<close> nor like a number.
\<close>

datatype pchunk =
    Parameter pragma_line
  | Unrelated string string

fun pchunk_text :: "pchunk \<Rightarrow> string" where
  "pchunk_text (Parameter p) = pragma_text p"
| "pchunk_text (Unrelated lead body) = lead @ body @ [newline]"

fun pchunk_ok :: "pchunk \<Rightarrow> bool" where
  "pchunk_ok (Parameter p) = pragma_ok p"
| "pchunk_ok (Unrelated lead body) =
     (list_all (in_class Space) lead \<and>
      body \<noteq> [] \<and> \<not> in_class Space (hd body) \<and> newline \<notin> set body \<and>
      \<not> prefix ''#pragma'' body \<and> \<not> number_start (hd body))"

fun pchunk_kept :: "pchunk \<Rightarrow> string" where
  "pchunk_kept (Parameter p) = []"
| "pchunk_kept (Unrelated lead body) = lead @ body @ [newline]"

text \<open>
  The end of a source: white space and a last line that no newline ends. The last line
  may be anything that does not start like a number, also a parameter line.
\<close>

definition trailer_ok :: "string \<Rightarrow> string \<Rightarrow> bool" where
  "trailer_ok lead t =
     (list_all (in_class Space) lead \<and> newline \<notin> set t \<and>
      (t = [] \<or> (\<not> in_class Space (hd t) \<and> \<not> number_start (hd t))))"

text \<open>The text after its leading white space does not start like a number.\<close>

definition no_number_ahead :: "string \<Rightarrow> bool" where
  "no_number_ahead rest =
     (case dropWhile (in_class Space) rest of [] \<Rightarrow> True | c # _ \<Rightarrow> \<not> number_start c)"

text \<open>The characters that every match of a pattern consumes.\<close>

fun needs :: "rx \<Rightarrow> char \<Rightarrow> bool" where
  "needs (Lit s) c = (c \<in> set s)"
| "needs (Grp n r) c = needs r c"
| "needs (Seq r1 r2) c = (needs r1 c \<or> needs r2 c)"
| "needs r c = False"

text \<open>The parameter pattern without its anchor.\<close>

definition parameter_line_rx :: rx where
  "parameter_line_rx = seqs
     [Star Space, Lit ''#pragma'', Plus Space, Lit ''parameter'', Plus Space,
      Grp 1 (Plus Word), Plus Space,
      Lit [dquote], Grp 2 (Plus AnyChar), Lit [dquote], Plus Space,
      Grp 3 number_rx, Plus Space,
      Grp 4 number_rx, Plus Space,
      Grp 5 number_rx,
      Opt (Grp 6 (Seq (Plus Space) number_rx)),
      LazyStar AnyChar, Lit [newline]]"

text \<open>The parameter pattern from \<open>#pragma\<close> on.\<close>

definition pragma_rx :: rx where
  "pragma_rx = seqs
     [Lit ''#pragma'', Plus Space, Lit ''parameter'', Plus Space,
      Grp 1 (Plus Word), Plus Space,
      Lit [dquote], Grp 2 (Plus AnyChar), Lit [dquote], Plus Space,
      Grp 3 number_rx, Plus Space,
      Grp 4 number_rx, Plus Space,
      Grp 5 number_rx,
      Opt (Grp 6 (Seq (Plus Space) number_rx)),
      LazyStar AnyChar, Lit [newline]]"

section \<open>Sequences of setter calls\<close>

datatype setter_call =
    SetRenderBehavior RenderBehaviorType
  | SetFrameRate cint
  | SetVSync bool
  | SetFilter FilterType

fun call :: "setter_call \<Rightarrow> 'f OpenGLOptions \<Rightarrow> 'f OpenGLOptions" where
  "call (SetRenderBehavior v) this = setRenderBehavior v this"
| "call (SetFrameRate v) this = setFrameRate v this"
| "call (SetVSync v) this = setVSync v this"
| "call (SetFilter v) this = setFilter v this"

section \<open>Example inputs\<close>

text \<open>
  A small file system: a raw shader, a two-pass preset whose second sub-shader
  \<open>b.glsl\<close> does not exist, and two JSON documents that are not presets.
\<close>

definition preset_text :: string where
  \<open>preset_text = ''{"shaders":[{"path":"a.glsl","parameters":{"x":5}},{"path":"b.glsl"}]}''\<close>

definition example_files :: "string \<Rightarrow> string option" where
  "example_files = map_of
     [(''a.glsl'', ''void main(){}\<newline>''),
      (''preset.json'', preset_text),
      (''array.json'', ''[]''),
      (''object.json'', ''{}'')]"

text \<open>
  What \<open>QJsonDocument::fromJson\<close> returns on the texts of the example files; a GLSL text
  is not a JSON document.
\<close>

definition example_fromJson :: "string \<Rightarrow> int QJsonDocument" where
  "example_fromJson bytes =
     (if bytes = preset_text then
        ObjectDocument
          [(''shaders'',
            JArray [JObject [(''parameters'', JObject [(''x'', JDouble 5)]),
                             (''path'', JString ''a.glsl'')],
                    JObject [(''path'', JString ''b.glsl'')]])]
      else if bytes = ''[]'' then ArrayDocument []
      else if bytes = ''{}'' then ObjectDocument []
      else NullDocument)"

text \<open>A driver that compiles and links everything and knows the one uniform \<open>x\<close>.\<close>

definition example_backend :: "(int, int) backend" where
  "example_backend =
     \<lparr>readAll = example_files,
      fromJson = example_fromJson,
      variantToFloat = (\<lambda>v. case v of JDouble n \<Rightarrow> n | _ \<Rightarrow> 0),
      glCompile = (\<lambda>st src. True),
      glLink = (\<lambda>shaders. True),
      glGetAttribLocation = (\<lambda>shaders name. - 1),
      glGetUniformLocation = (\<lambda>shaders name. if name = ''x'' then 3 else - 1)\<rparr>"

definition example_config :: config where
  "example_config =
     \<lparr>video_vsync = 1, video_framerate = - 1, video_filter_method = 0, video_shader = []\<rparr>"

text \<open>An object as the constructor and one call of \<open>setRenderBehavior\<close> leave it.\<close>

definition example_options :: "int OpenGLOptions" where
  "example_options =
     setRenderBehavior TargetFramerate
       (OpenGLOptions example_backend example_config True ''#version 130'')"

text \<open>A configuration whose shader path is the two-pass preset.\<close>

definition preset_config :: config where
  "preset_config =
     \<lparr>video_vsync = 1, video_framerate = - 1, video_filter_method = 0,
      video_shader = ''preset.json''\<rparr>"

text \<open>
  A source with two parameter lines, the first after a blank line and with a step and a
  comment, and with a last line that no newline ends.
\<close>

definition example_parameter :: pragma_line where
  "example_parameter =
     \<lparr>p_lead = ''\<newline>'', p_gap1 = '' '', p_gap2 = '' '', p_identifier = ''GAMMA'',
      p_gap3 = '' '', p_description = ''Gamma value'', p_gap4 = '' '', p_initial = ''2.2'',
      p_gap5 = '' '', p_minimum = ''0.0'', p_gap6 = '' '', p_maximum = ''4.0'',
      p_tail = '' 0.1 // step''\<rparr>"

definition example_parameter2 :: pragma_line where
  "example_parameter2 =
     \<lparr>p_lead = [], p_gap1 = '' '', p_gap2 = '' '', p_identifier = ''BIAS'',
      p_gap3 = '' '', p_description = ''Bias'', p_gap4 = '' '', p_initial = ''-1'',
      p_gap5 = '' '', p_minimum = ''-2'', p_gap6 = '' '', p_maximum = ''2'',
      p_tail = []\<rparr>"

definition example_chunks :: "pchunk list" where
  "example_chunks =
     [Unrelated [] ''#version 130'',
      Parameter example_parameter,
      Parameter example_parameter2,
      Unrelated ''  '' ''void main(){}'']"

definition example_last_line :: string where
  \<open>example_last_line = ''#pragma parameter LAST "Last" 1 0 2''\<close>

text \<open>Configurations whose shader path is a JSON document without shader entries.\<close>

definition empty_preset_config :: config where
  "empty_preset_config =
     \<lparr>video_vsync = 1, video_framerate = - 1, video_filter_method = 0,
      video_shader = ''object.json''\<rparr>"

definition empty_array_config :: config where
  "empty_array_config =
     \<lparr>video_vsync = 1, video_framerate = - 1, video_filter_method = 0,
      video_shader = ''array.json''\<rparr>"

section \<open>Setters, \<open>filter\<close> and \<open>save\<close>\<close>

lemma call_shaders: "m_shaders (call c this) = m_shaders this"
  by (cases c) (simp_all add: setRenderBehavior_def setFrameRate_def setVSync_def setFilter_def)

lemma example_options_shaders: "m_shaders example_options \<noteq> []"
  by (simp add: example_options_def setRenderBehavior_def OpenGLOptions_def example_config_def
      Let_def addDefaultShader_def split: prod.splits)

text \<open>
  C9. After any sequence of setter calls, \<open>filter()\<close> returns the value derived from the
  global \<open>video_filter_method\<close> as it is at the call: \<open>Nearest\<close> when it is 0, \<open>Linear\<close>
  otherwise. \<open>setFilter\<close> does not change what \<open>filter()\<close> returns; once \<open>save()\<close> has
  written the global (the pipeline being non-empty), \<open>filter()\<close> returns the value set.
\<close>

theorem filter_reads_global:
  "filter_gl (fold call calls this) cfg = (if video_filter_method cfg = 0 then Nearest else Linear)
   \<and> filter_gl (setFilter v this) cfg = filter_gl this cfg
   \<and> (m_shaders this \<noteq> [] \<longrightarrow>
        (\<exists>cfg'. save n (setFilter v this) cfg = Some cfg' \<and> filter_gl (setFilter v this) cfg' = v))"
proof (intro conjI impI)
  show "filter_gl (fold call calls this) cfg =
          (if video_filter_method cfg = 0 then Nearest else Linear)"
    by (simp add: filter_gl_def)
  show "filter_gl (setFilter v this) cfg = filter_gl this cfg"
    by (simp add: filter_gl_def)
  assume "m_shaders this \<noteq> []"
  then show "\<exists>cfg'. save n (setFilter v this) cfg = Some cfg' \<and> filter_gl (setFilter v this) cfg' = v"
    by (cases "m_shaders this"; cases v)
       (auto simp: save_def setFilter_def filter_gl_def Let_def)
qed

theorem filter_reads_global_witness:
  "m_shaders example_options \<noteq> []
   \<and> filter_gl (fold call [SetFilter Linear, SetVSync False] example_options) example_config = Nearest
   \<and> (\<exists>cfg'. save 512 (setFilter Linear example_options) example_config = Some cfg'
         \<and> filter_gl (setFilter Linear example_options) cfg' = Linear)"
  using filter_reads_global [of "[SetFilter Linear, SetVSync False]" example_options
      example_config Linear 512] example_options_shaders
  by (simp add: example_config_def)

text \<open>
  C10. \<open>save()\<close> reads \<open>m_shaders.first()\<close> whatever the list holds: it has a defined result
  exactly when the pipeline is non-empty. An object constructed with \<open>loadConfig = false\<close>
  has an empty pipeline, so \<open>save()\<close> on it reads the first element of an empty list.
\<close>

theorem save_needs_first:
  "(save n this cfg = None) = (m_shaders this = [])
   \<and> m_shaders (OpenGLOptions env cfg0 False glslVersion) = []
   \<and> save n (OpenGLOptions env cfg0 False glslVersion) cfg = None"
  by (auto simp: save_def OpenGLOptions_def initial_options_def Let_def split: list.splits)

section \<open>Save and reload\<close>

lemma addShader_source_scalars:
  "addShader_source env s p ps this = (r, this') \<Longrightarrow> scalars this' = scalars this"
  by (auto simp: addShader_source_def scalars_def Let_def split: if_splits prod.splits)

lemma addShader_items_scalars:
  "addShader_items env items this = (r, this') \<Longrightarrow> scalars this' = scalars this"
proof (induction items arbitrary: this)
  case Nil
  then show ?case by simp
next
  case (Cons item items)
  then show ?case
    by (auto simp: Let_def split: if_splits sum.splits prod.splits outcome.splits
        dest: addShader_source_scalars)
qed

lemma addShader_scalars:
  "addShader env path this = (r, this') \<Longrightarrow> scalars this' = scalars this"
  by (auto simp: addShader_def Let_def split: sum.splits if_splits
      dest: addShader_source_scalars addShader_items_scalars)

lemma addDefaultShader_scalars: "scalars (addDefaultShader env this) = scalars this"
  by (simp add: addDefaultShader_def scalars_def Let_def split: prod.splits)

lemma OpenGLOptions_load:
  "OpenGLOptions env cfg True v =
     (if video_shader cfg = [] then addDefaultShader env (configured cfg v)
      else case addShader env (video_shader cfg) (configured cfg v) of
             (Done, this2) \<Rightarrow> this2
           | (Thrown e, this2) \<Rightarrow> addDefaultShader env this2)"
  by (simp add: OpenGLOptions_def configured_def Let_def)

lemma OpenGLOptions_scalars:
  "scalars (OpenGLOptions (env :: ('n, 'f) backend) cfg True v) =
     scalars (configured cfg v :: 'f OpenGLOptions)"
proof (cases "video_shader cfg = []")
  case True
  then show ?thesis
    by (simp add: OpenGLOptions_load addDefaultShader_scalars)
next
  case False
  obtain r this' where a:
    "addShader env (video_shader cfg) (configured cfg v :: 'f OpenGLOptions) = (r, this')"
    by (cases "addShader env (video_shader cfg) (configured cfg v :: 'f OpenGLOptions)") auto
  from addShader_scalars [OF a] False a show ?thesis
    by (cases r) (simp_all add: OpenGLOptions_load addDefaultShader_scalars)
qed

text \<open>
  C8, as amended. Let \<open>save()\<close> succeed on an object (its pipeline is non-empty) and let a
  new object be constructed from the saved configuration. Then \<open>vSync()\<close> of the new
  object equals that of the saved one; \<open>filter()\<close> of the new object, and of the saved one
  after the save, is the \<open>m_filter\<close> that was saved; \<open>framerate()\<close> of the new object is
  the effective framerate (-1 if the saved behaviour is \<open>SyncWithVideo\<close>, else the saved
  framerate); and \<open>renderBehavior()\<close> of the new object is \<open>SyncWithVideo\<close> if the saved
  behaviour is \<open>SyncWithVideo\<close> or the saved framerate is -1, and \<open>TargetFramerate\<close>
  otherwise. The persisted shader path is that of the first pass.
\<close>

theorem save_reload_scalars:
  assumes "save n this cfg = Some cfg'"
  shows "vSync (OpenGLOptions env cfg' True v) = vSync this
       \<and> filter_gl (OpenGLOptions env cfg' True v) cfg' = m_filter this
       \<and> filter_gl this cfg' = m_filter this
       \<and> framerate (OpenGLOptions env cfg' True v) =
           (if renderBehavior this = SyncWithVideo then - 1 else framerate this)
       \<and> renderBehavior (OpenGLOptions env cfg' True v) =
           (if renderBehavior this = SyncWithVideo \<or> framerate this = - 1
            then SyncWithVideo else TargetFramerate)
       \<and> video_shader cfg' =
           (if m_path (hd (m_shaders this)) = [] then []
            else qstrncpy (video_shader cfg) (m_path (hd (m_shaders this))) n)"
proof -
  have c: "video_vsync cfg' = (if m_vsync this then 1 else 0)
         \<and> video_framerate cfg' =
             (if m_renderBehavior this = SyncWithVideo then - 1 else m_framerate this)
         \<and> video_filter_method cfg' = (if m_filter this = Nearest then 0 else 1)"
    using assms by (auto simp: save_def Let_def split: list.splits if_splits)
  have p: "video_shader cfg' =
           (if m_path (hd (m_shaders this)) = [] then []
            else qstrncpy (video_shader cfg) (m_path (hd (m_shaders this))) n)"
    using assms by (auto simp: save_def Let_def split: list.splits if_splits)
  have f: "m_filter this = Nearest \<or> m_filter this = Linear"
    by (cases "m_filter this") auto
  note s = OpenGLOptions_scalars [of env cfg' v]
  from c f s have "vSync (OpenGLOptions env cfg' True v) = vSync this
       \<and> filter_gl (OpenGLOptions env cfg' True v) cfg' = m_filter this
       \<and> filter_gl this cfg' = m_filter this
       \<and> framerate (OpenGLOptions env cfg' True v) =
           (if renderBehavior this = SyncWithVideo then - 1 else framerate this)
       \<and> renderBehavior (OpenGLOptions env cfg' True v) =
           (if renderBehavior this = SyncWithVideo \<or> framerate this = - 1
            then SyncWithVideo else TargetFramerate)"
    by (auto simp: scalars_def configured_def initial_options_def vSync_def filter_gl_def
        framerate_def renderBehavior_def)
  with p show ?thesis by simp
qed

lemma example_options_save:
  "save 512 (setFrameRate 60 example_options) example_config =
     Some \<lparr>video_vsync = 1, video_framerate = 60, video_filter_method = 0, video_shader = []\<rparr>"
  by (simp add: save_def example_options_def setFrameRate_def setRenderBehavior_def
      OpenGLOptions_def example_config_def Let_def addDefaultShader_def initial_options_def
      OpenGLShaderPass_def split: prod.splits)

theorem save_reload_scalars_witness:
  "save 512 (setFrameRate 60 example_options) example_config =
     Some \<lparr>video_vsync = 1, video_framerate = 60, video_filter_method = 0, video_shader = []\<rparr>
   \<and> renderBehavior (OpenGLOptions example_backend
        \<lparr>video_vsync = 1, video_framerate = 60, video_filter_method = 0, video_shader = []\<rparr>
        True ''#version 130'' :: int OpenGLOptions) = TargetFramerate
   \<and> framerate (OpenGLOptions example_backend
        \<lparr>video_vsync = 1, video_framerate = 60, video_filter_method = 0, video_shader = []\<rparr>
        True ''#version 130'' :: int OpenGLOptions) = 60"
  using save_reload_scalars [OF example_options_save, of example_backend "''#version 130''"]
    example_options_save
  by (simp add: renderBehavior_def framerate_def example_options_def setFrameRate_def
      setRenderBehavior_def)

text \<open>
  C8 as stated fails: an object with behaviour \<open>TargetFramerate\<close> and framerate -1 (the
  constructor's framerate, after \<open>setRenderBehavior(TargetFramerate)\<close>) is saved with
  framerate -1 and comes back with behaviour \<open>SyncWithVideo\<close>.
\<close>

theorem save_reload_counterexample:
  "save 512 example_options example_config =
     Some \<lparr>video_vsync = 1, video_framerate = - 1, video_filter_method = 0, video_shader = []\<rparr>
   \<and> renderBehavior example_options = TargetFramerate
   \<and> renderBehavior (OpenGLOptions example_backend
        \<lparr>video_vsync = 1, video_framerate = - 1, video_filter_method = 0, video_shader = []\<rparr>
        True ''#version 130'' :: int OpenGLOptions) = SyncWithVideo"
  by (simp add: save_def example_options_def setRenderBehavior_def renderBehavior_def
      OpenGLOptions_def example_config_def Let_def addDefaultShader_def initial_options_def
      OpenGLShaderPass_def split: prod.splits)

section \<open>Parameter bindings of a compiled pass\<close>

lemma resolve_parameters_filter:
  "resolve_parameters env shader ps =
     map (\<lambda>p. (uniformLocation env shader (fst p), snd p))
       (filter (\<lambda>p. uniformLocation env shader (fst p) \<noteq> - 1) ps)"
  by (induction ps) (simp_all add: Let_def)

text \<open>
  C7. When \<open>addShader(source, path, P)\<close> compiles and links, one pass is appended whose
  program is linked and whose parameter bindings are the pairs of \<open>P\<close> whose names are
  uniforms of that program (location other than -1), each name replaced by its location,
  in the order of \<open>P\<close>. The other pairs of \<open>P\<close> are dropped; nothing is thrown for them.
\<close>

theorem pass_parameters_filtered:
  assumes "addShader_source env source path P this = (Done, this')"
  shows "m_shaders this' = m_shaders this @ [last (m_shaders this')]
       \<and> linked (m_shader (last (m_shaders this')))
       \<and> m_parameters (last (m_shaders this')) =
           map (\<lambda>p. (glGetUniformLocation env (attached (m_shader (last (m_shaders this')))) (fst p),
                      snd p))
             (filter (\<lambda>p. glGetUniformLocation env (attached (m_shader (last (m_shaders this'))))
                            (fst p) \<noteq> - 1) P)"
  using assms
  by (auto simp: addShader_source_def Let_def addShaderFromSourceCode_def link_def
      OpenGLShaderPass_def resolve_parameters_filter uniformLocation_def
      split: if_splits prod.splits)

lemma example_pass_done:
  "fst (addShader_source example_backend ''void main(){}\<newline>'' ''a.glsl''
     [(''x'', 1), (''y'', 2), (''x'', 5)] (initial_options ''#version 130'')) = Done"
  by (simp add: addShader_source_def example_backend_def addShaderFromSourceCode_def
      link_def Let_def)

theorem pass_parameters_filtered_witness:
  "m_parameters (last (m_shaders (snd (addShader_source example_backend
     ''void main(){}\<newline>'' ''a.glsl'' [(''x'', 1), (''y'', 2), (''x'', 5)]
     (initial_options ''#version 130''))))) = [(3, 1), (3, 5)]"
proof -
  obtain r this' where a:
    "addShader_source example_backend ''void main(){}\<newline>'' ''a.glsl''
       [(''x'', 1), (''y'', 2), (''x'', 5)] (initial_options ''#version 130'') = (r, this')"
    by (cases "addShader_source example_backend ''void main(){}\<newline>'' ''a.glsl''
       [(''x'', 1), (''y'', 2), (''x'', 5)] (initial_options ''#version 130'')") auto
  with example_pass_done have "r = Done" by simp
  with a pass_parameters_filtered [of example_backend _ _ _ _ this'] show ?thesis
    by (simp add: example_backend_def)
qed

section \<open>The pipeline after loading\<close>

lemma append_pass_source:
  "addShader_source env s p ps this = (r, this') \<Longrightarrow>
     (r = Done \<and> (\<exists>pass. m_shaders this' = m_shaders this @ [pass]
        \<and> m_path pass = p
        \<and> m_parameters pass = resolve_parameters env (m_shader pass) ps))
     \<or> ((\<exists>e. r = Thrown e) \<and> this' = this)"
  by (auto simp: addShader_source_def Let_def OpenGLShaderPass_def split: if_splits prod.splits)

lemma addShader_source_grows:
  "addShader_source env s p ps this = (Done, this') \<Longrightarrow> m_shaders this' \<noteq> []"
  by (drule append_pass_source) auto

lemma addShader_source_keeps:
  "addShader_source env s p ps this = (r, this') \<Longrightarrow> m_shaders this \<noteq> [] \<Longrightarrow>
     m_shaders this' \<noteq> []"
  by (drule append_pass_source) auto

lemma addShader_items_keeps:
  "addShader_items env items this = (r, this') \<Longrightarrow> m_shaders this \<noteq> [] \<Longrightarrow>
     m_shaders this' \<noteq> []"
proof (induction items arbitrary: this)
  case Nil
  then show ?case by simp
next
  case (Cons item items)
  then show ?case
    by (auto simp: Let_def split: if_splits sum.splits prod.splits outcome.splits
        dest: addShader_source_keeps)
qed

lemma addShader_items_grows:
  "addShader_items env items this = (Done, this') \<Longrightarrow> items \<noteq> [] \<Longrightarrow> m_shaders this' \<noteq> []"
  by (cases items)
     (auto simp: Let_def split: if_splits sum.splits prod.splits outcome.splits
        dest: addShader_source_grows addShader_items_keeps)

lemma addDefaultShader_grows: "m_shaders (addDefaultShader env this) \<noteq> []"
  by (simp add: addDefaultShader_def Let_def split: prod.splits)

text \<open>
  C1. The code departs from the claim where a preset fails after a pass was built. The
  persisted path names a preset of two sub-shaders; \<open>a.glsl\<close> builds, \<open>b.glsl\<close> cannot
  be opened. \<open>addShader\<close> throws with the pass of \<open>a.glsl\<close> already appended, and the
  \<open>catch\<close> appends the default pass behind it: the pipeline has two passes, the first
  one built from \<open>a.glsl\<close>, the second the default pass (empty path).
\<close>

theorem constructor_keeps_partial_passes:
  "fst (addShader example_backend ''preset.json'' (configured preset_config ''#version 130''))
     = Thrown (OpenError ''b.glsl'')
   \<and> map m_path (m_shaders (OpenGLOptions example_backend preset_config True ''#version 130''))
     = [''a.glsl'', []]
   \<and> length (m_shaders (OpenGLOptions example_backend preset_config True ''#version 130'')) = 2"
  by (simp add: OpenGLOptions_load preset_config_def addShader_def readTextFile_def
      example_backend_def example_files_def example_fromJson_def isNull_def toArray_def
      document_value_def object_value_def toObject_def toString_def keys_def Let_def
      addShader_source_def addShaderFromSourceCode_def link_def OpenGLShaderPass_def
      addDefaultShader_def configured_def initial_options_def split: prod.splits)

text \<open>
  C2, as amended. When the text of the resource does not parse as a JSON document,
  \<open>addShader(path)\<close> is \<open>addShader(text, path)\<close> with no parameters: the whole text is one
  raw shader. If it compiles and links, exactly one pass is appended, with the resource's
  path and no parameter bindings; otherwise the exception leaves the pipeline as it was.
  When the text parses as a JSON document, whatever its shape, it is handled as a preset:
  \<open>addShader(path)\<close> is the loop over the document's \<open>shaders\<close> list.
\<close>

theorem raw_shader_single_pass:
  assumes "readAll env path = Some bytes"
  shows "(isNull (fromJson env bytes) \<longrightarrow>
            addShader env path this = addShader_source env bytes path [] this
          \<and> (case addShader env path this of
                (Done, this') \<Rightarrow> m_shaders this' = m_shaders this @ [last (m_shaders this')]
                                  \<and> m_path (last (m_shaders this')) = path
                                  \<and> m_parameters (last (m_shaders this')) = []
              | (Thrown e, this') \<Rightarrow> this' = this))
       \<and> (\<not> isNull (fromJson env bytes) \<longrightarrow>
            addShader env path this =
              addShader_items env (toArray (document_value (fromJson env bytes) ''shaders'')) this)"
proof (intro conjI impI)
  assume n: "isNull (fromJson env bytes)"
  with assms show e: "addShader env path this = addShader_source env bytes path [] this"
    by (simp add: addShader_def readTextFile_def Let_def)
  obtain r this' where a: "addShader_source env bytes path [] this = (r, this')"
    by (cases "addShader_source env bytes path [] this") auto
  from append_pass_source [OF a] e a
  show "case addShader env path this of
          (Done, this') \<Rightarrow> m_shaders this' = m_shaders this @ [last (m_shaders this')]
                            \<and> m_path (last (m_shaders this')) = path
                            \<and> m_parameters (last (m_shaders this')) = []
        | (Thrown e, this') \<Rightarrow> this' = this"
    by (cases r) auto
next
  assume "\<not> isNull (fromJson env bytes)"
  with assms show "addShader env path this =
      addShader_items env (toArray (document_value (fromJson env bytes) ''shaders'')) this"
    by (simp add: addShader_def readTextFile_def Let_def)
qed

theorem raw_shader_single_pass_witness:
  "readAll example_backend ''a.glsl'' = Some ''void main(){}\<newline>''
   \<and> isNull (fromJson example_backend ''void main(){}\<newline>'')
   \<and> addShader example_backend ''a.glsl'' (initial_options ''#version 130'')
     = addShader_source example_backend ''void main(){}\<newline>'' ''a.glsl'' []
         (initial_options ''#version 130'')
   \<and> fst (addShader example_backend ''a.glsl'' (initial_options ''#version 130'')) = Done
   \<and> readAll example_backend ''preset.json'' = Some preset_text
   \<and> \<not> isNull (fromJson example_backend preset_text)
   \<and> addShader example_backend ''preset.json'' (initial_options ''#version 130'')
     = addShader_items example_backend
         (toArray (document_value (fromJson example_backend preset_text) ''shaders''))
         (initial_options ''#version 130'')"
proof -
  have r: "readAll example_backend ''a.glsl'' = Some ''void main(){}\<newline>''"
    by (simp add: example_backend_def example_files_def)
  have n: "isNull (fromJson example_backend ''void main(){}\<newline>'')"
    by (simp add: example_backend_def example_fromJson_def isNull_def preset_text_def)
  have d: "fst (addShader_source example_backend ''void main(){}\<newline>'' ''a.glsl'' []
             (initial_options ''#version 130'')) = Done"
    by (simp add: addShader_source_def example_backend_def addShaderFromSourceCode_def
      link_def Let_def)
  have r2: "readAll example_backend ''preset.json'' = Some preset_text"
    by (simp add: example_backend_def example_files_def)
  have n2: "\<not> isNull (fromJson example_backend preset_text)"
    by (simp add: example_backend_def example_fromJson_def isNull_def)
  from raw_shader_single_pass [OF r, of "initial_options ''#version 130''"]
    raw_shader_single_pass [OF r2, of "initial_options ''#version 130''"] r n d r2 n2
  show ?thesis by simp
qed

text \<open>
  C2 as stated fails: a resource holding the JSON array \<open>[]\<close>, or the JSON object \<open>{}\<close>
  without a \<open>shaders\<close> list, parses as a document; the loop over its shaders runs zero
  times and \<open>addShader\<close> returns with no pass added.
\<close>

theorem json_not_preset_counterexample:
  "addShader example_backend ''array.json'' (initial_options ''#version 130'')
     = (Done, initial_options ''#version 130'')
   \<and> addShader example_backend ''object.json'' (initial_options ''#version 130'')
     = (Done, initial_options ''#version 130'')
   \<and> m_shaders (initial_options ''#version 130'' :: int OpenGLOptions) = []"
  by (simp add: addShader_def readTextFile_def example_backend_def example_files_def
      example_fromJson_def isNull_def toArray_def document_value_def object_value_def
      preset_text_def initial_options_def)

text \<open>
  With \<open>loadConfig = true\<close> the constructor leaves at least one pass in every case but
  one: when the persisted path names a readable JSON document without shader entries.
  With \<open>loadConfig = false\<close> it returns before any pass is added.
\<close>

lemma constructor_passes_otherwise:
  assumes "\<forall>bytes. video_shader cfg \<noteq> [] \<and> readAll env (video_shader cfg) = Some bytes
              \<and> \<not> isNull (fromJson env bytes)
             \<longrightarrow> toArray (document_value (fromJson env bytes) ''shaders'') \<noteq> []"
  shows "m_shaders (OpenGLOptions env cfg True v) \<noteq> []
       \<and> m_shaders (OpenGLOptions env cfg False v) = []"
proof (rule conjI)
  show "m_shaders (OpenGLOptions env cfg False v) = []"
    by (simp add: OpenGLOptions_def initial_options_def)
  show "m_shaders (OpenGLOptions env cfg True v) \<noteq> []"
  proof (cases "video_shader cfg = []")
    case True
    then show ?thesis by (simp add: OpenGLOptions_load addDefaultShader_grows)
  next
    case False
    obtain r this' where a: "addShader env (video_shader cfg) (configured cfg v) = (r, this')"
      by (cases "addShader env (video_shader cfg) (configured cfg v)") auto
    show ?thesis
    proof (cases r)
      case Done
      with a assms False have "m_shaders this' \<noteq> []"
        by (auto simp: addShader_def readTextFile_def Let_def split: option.splits if_splits
            dest: addShader_source_grows addShader_items_grows)
      with a Done False show ?thesis by (simp add: OpenGLOptions_load)
    next
      case (Thrown e)
      with a False show ?thesis by (simp add: OpenGLOptions_load addDefaultShader_grows)
    qed
  qed
qed

text \<open>
  C4. The code departs from the claim where the persisted path names a JSON document
  without shader entries (the object \<open>{}\<close>, the array \<open>[]\<close>). With \<open>loadConfig = true\<close>,
  \<open>addShader\<close> runs its loop zero times and returns without a pass and without an
  exception, so the fallback of the \<open>catch\<close> is not taken and the constructor returns
  with an empty pipeline.
\<close>

theorem constructor_empty_preset_no_pass:
  "addShader example_backend ''object.json'' (configured empty_preset_config ''#version 130'')
     = (Done, configured empty_preset_config ''#version 130'')
   \<and> m_shaders (OpenGLOptions example_backend empty_preset_config True ''#version 130'') = []
   \<and> m_shaders (OpenGLOptions example_backend empty_array_config True ''#version 130'') = []"
  by (simp add: OpenGLOptions_load empty_preset_config_def empty_array_config_def
      addShader_def readTextFile_def example_backend_def example_files_def
      example_fromJson_def isNull_def toArray_def document_value_def object_value_def
      preset_text_def configured_def initial_options_def)

section \<open>Properties of the matcher\<close>

declare in_class.simps [simp del]

lemma greedy_splits_set:
  "(b', a') \<in> set (greedy_splits P b a) \<longleftrightarrow>
     (\<exists>xs. a = xs @ a' \<and> b' = rev xs @ b \<and> (\<forall>c\<in>set xs. P c))"
proof (induction a arbitrary: b)
  case Nil
  then show ?case by auto
next
  case (Cons c a)
  show ?case
  proof (cases "P c")
    case True
    have "(\<exists>xs. c # a = xs @ a' \<and> b' = rev xs @ b \<and> (\<forall>c\<in>set xs. P c)) \<longleftrightarrow>
          (b' = b \<and> a' = c # a) \<or> (\<exists>ys. a = ys @ a' \<and> b' = rev ys @ c # b \<and> (\<forall>c\<in>set ys. P c))"
      (is "?L \<longleftrightarrow> ?R")
    proof
      assume ?L
      then obtain xs where x: "c # a = xs @ a'" "b' = rev xs @ b" "\<forall>c\<in>set xs. P c" by blast
      show ?R
      proof (cases xs)
        case Nil
        with x show ?thesis by simp
      next
        case (Cons y ys)
        with x show ?thesis by auto
      qed
    next
      assume ?R
      then show ?L
      proof
        assume "b' = b \<and> a' = c # a"
        then show ?L by (intro exI[of _ "[]"]) simp
      next
        assume "\<exists>ys. a = ys @ a' \<and> b' = rev ys @ c # b \<and> (\<forall>c\<in>set ys. P c)"
        then obtain ys where "a = ys @ a'" "b' = rev ys @ c # b" "\<forall>c\<in>set ys. P c" by blast
        with True show ?L by (intro exI[of _ "c # ys"]) simp
      qed
    qed
    with True Cons.IH[of "c # b"] show ?thesis by auto
  next
    case False
    have "(\<exists>xs. c # a = xs @ a' \<and> b' = rev xs @ b \<and> (\<forall>c\<in>set xs. P c)) \<longleftrightarrow> (b' = b \<and> a' = c # a)"
    proof
      assume "\<exists>xs. c # a = xs @ a' \<and> b' = rev xs @ b \<and> (\<forall>c\<in>set xs. P c)"
      then obtain xs where x: "c # a = xs @ a'" "b' = rev xs @ b" "\<forall>c\<in>set xs. P c" by blast
      with False have "xs = []" by (cases xs) auto
      with x show "b' = b \<and> a' = c # a" by simp
    next
      assume "b' = b \<and> a' = c # a"
      then show "\<exists>xs. c # a = xs @ a' \<and> b' = rev xs @ b \<and> (\<forall>c\<in>set xs. P c)"
        by (intro exI[of _ "[]"]) simp
    qed
    with False show ?thesis by auto
  qed
qed

lemma lazy_splits_set: "set (lazy_splits P b a) = set (greedy_splits P b a)"
  by (induction a arbitrary: b) auto

text \<open>Every alternative consumes a prefix of the text.\<close>

lemma ms_consumes:
  "(b', a', cs') \<in> set (ms r (b, a, cs)) \<Longrightarrow> \<exists>xs. a = xs @ a' \<and> b' = rev xs @ b"
proof (induction r arbitrary: b a cs b' a' cs')
  case Bol
  then show ?case by (auto split: if_splits)
next
  case (Lit s)
  then have t: "take (length s) a = s" and e: "b' = rev s @ b" "a' = drop (length s) a"
    by (auto split: if_splits)
  from t have "a = s @ drop (length s) a"
    by (metis append_take_drop_id)
  with e show ?case by blast
next
  case (Star k)
  then show ?case by (auto simp: greedy_splits_set)
next
  case (Plus k)
  then show ?case
    by (cases a) (auto simp: greedy_splits_set split: if_splits
        intro: exI[of _ "_ # _"])
next
  case (LazyStar k)
  then show ?case by (auto simp: lazy_splits_set greedy_splits_set)
next
  case (Opt r)
  then show ?case by auto
next
  case (Grp n r)
  then show ?case by auto
next
  case (Seq r1 r2)
  from Seq.prems obtain b1 a1 cs1 where
    u: "(b1, a1, cs1) \<in> set (ms r1 (b, a, cs))" and t: "(b', a', cs') \<in> set (ms r2 (b1, a1, cs1))"
    by auto
  from Seq.IH(1)[OF u] obtain xs where xs: "a = xs @ a1" "b1 = rev xs @ b" by blast
  from Seq.IH(2)[OF t] obtain ys where ys: "a1 = ys @ a'" "b' = rev ys @ b1" by blast
  from xs ys show ?case by (intro exI[of _ "xs @ ys"]) simp
qed

lemma ms_nonnull_shorter:
  "\<not> nullable r \<Longrightarrow> (b', a', cs') \<in> set (ms r (b, a, cs)) \<Longrightarrow> length a' < length a"
proof (induction r arbitrary: b a cs b' a' cs')
  case (Lit s)
  then show ?case by (cases a) (auto split: if_splits)
next
  case (Plus k)
  then show ?case
    by (cases a) (auto simp: greedy_splits_set split: if_splits)
next
  case (Grp n r)
  then show ?case by auto
next
  case (Seq r1 r2)
  from Seq.prems obtain b1 a1 cs1 where
    u: "(b1, a1, cs1) \<in> set (ms r1 (b, a, cs))" and t: "(b', a', cs') \<in> set (ms r2 (b1, a1, cs1))"
    by auto
  from ms_consumes[OF u] have l1: "length a1 \<le> length a" by auto
  from ms_consumes[OF t] have l2: "length a' \<le> length a1" by auto
  from Seq.prems(1) have "\<not> nullable r1 \<or> \<not> nullable r2" by simp
  then show ?case
  proof
    assume "\<not> nullable r1"
    from Seq.IH(1)[OF this u] l2 show ?thesis by simp
  next
    assume "\<not> nullable r2"
    from Seq.IH(2)[OF this t] l1 show ?thesis by simp
  qed
qed simp_all

lemma ms_first_stays:
  "\<not> first r d \<Longrightarrow> (b', a', cs') \<in> set (ms r (b, d # a, cs)) \<Longrightarrow> a' = d # a \<and> b' = b"
proof (induction r arbitrary: b cs b' a' cs')
  case Bol
  then show ?case by (auto split: if_splits)
next
  case (Lit s)
  then show ?case by (cases s) (auto split: if_splits)
next
  case (Star k)
  then show ?case by auto
next
  case (Plus k)
  then show ?case by auto
next
  case (LazyStar k)
  then show ?case by auto
next
  case (Opt r)
  then show ?case by auto
next
  case (Grp n r)
  then show ?case by auto
next
  case (Seq r1 r2)
  from Seq.prems obtain b1 a1 cs1 where
    u: "(b1, a1, cs1) \<in> set (ms r1 (b, d # a, cs))" and t: "(b', a', cs') \<in> set (ms r2 (b1, a1, cs1))"
    by auto
  from Seq.prems(1) have f1: "\<not> first r1 d" by simp
  from Seq.IH(1)[OF f1 u] have e: "a1 = d # a" "b1 = b" by auto
  show ?case
  proof (cases "nullable r1")
    case True
    with Seq.prems(1) have "\<not> first r2 d" by simp
    from Seq.IH(2)[OF this] t e show ?thesis by blast
  next
    case False
    from ms_nonnull_shorter[OF False u] e show ?thesis by simp
  qed
qed

lemma ms_fail_first:
  "\<not> nullable r \<Longrightarrow> \<not> first r d \<Longrightarrow> ms r (b, d # a, cs) = []"
proof (rule ccontr)
  assume n: "\<not> nullable r" and f: "\<not> first r d" and "ms r (b, d # a, cs) \<noteq> []"
  then obtain t where "t \<in> set (ms r (b, d # a, cs))" by (cases "ms r (b, d # a, cs)") auto
  then obtain b' a' cs' where t: "(b', a', cs') \<in> set (ms r (b, d # a, cs))"
    by (metis prod_cases3)
  from ms_first_stays[OF f t] ms_nonnull_shorter[OF n t] show False by simp
qed

lemma ms_fail_empty:
  "\<not> nullable r \<Longrightarrow> ms r (b, [], cs) = []"
proof (rule ccontr)
  assume n: "\<not> nullable r" and "ms r (b, [], cs) \<noteq> []"
  then obtain t where "t \<in> set (ms r (b, [], cs))" by (cases "ms r (b, [], cs)") auto
  then obtain b' a' cs' where t: "(b', a', cs') \<in> set (ms r (b, [], cs))"
    by (metis prod_cases3)
  from ms_nonnull_shorter[OF n t] show False by simp
qed

text \<open>A greedy run followed by a pattern that cannot start inside the run.\<close>

lemma greedy_commit:
  assumes "\<forall>c\<in>set xs. P c" and "a = [] \<or> \<not> P (hd a)"
    and "\<And>b' d a'. P d \<Longrightarrow> F (b', d # a') = []"
  shows "concat (map F (greedy_splits P b (xs @ a))) = F (rev xs @ b, a)"
  using assms(1)
proof (induction xs arbitrary: b)
  case Nil
  from assms(2) show ?case by (cases a) auto
next
  case (Cons x xs)
  then show ?case using assms(3)[of x b "xs @ a"] by simp
qed

lemma ms_Seq_Star:
  assumes "\<forall>c\<in>set xs. in_class k c" and "a = [] \<or> \<not> in_class k (hd a)"
    and "\<not> nullable r" and "\<And>d. in_class k d \<Longrightarrow> \<not> first r d"
  shows "ms (Seq (Star k) r) (b, xs @ a, cs) = ms r (rev xs @ b, a, cs)"
proof -
  have "concat (map (\<lambda>(b', a'). ms r (b', a', cs)) (greedy_splits (in_class k) b (xs @ a)))
        = (\<lambda>(b', a'). ms r (b', a', cs)) (rev xs @ b, a)"
    using assms by (intro greedy_commit) (auto simp: ms_fail_first)
  then show ?thesis by (simp add: map_concat comp_def case_prod_unfold)
qed

lemma ms_Seq_Plus:
  assumes "xs \<noteq> []" and "\<forall>c\<in>set xs. in_class k c" and "a = [] \<or> \<not> in_class k (hd a)"
    and "\<not> nullable r" and "\<And>d. in_class k d \<Longrightarrow> \<not> first r d"
  shows "ms (Seq (Plus k) r) (b, xs @ a, cs) = ms r (rev xs @ b, a, cs)"
proof -
  from assms(1) obtain x xs' where x: "xs = x # xs'" by (cases xs) auto
  have "concat (map (\<lambda>(b', a'). ms r (b', a', cs)) (greedy_splits (in_class k) (x # b) (xs' @ a)))
        = (\<lambda>(b', a'). ms r (b', a', cs)) (rev xs' @ x # b, a)"
    using assms x by (intro greedy_commit) (auto simp: ms_fail_first)
  with x assms(2) show ?thesis by (simp add: map_concat comp_def case_prod_unfold)
qed

lemma ms_Seq_Lit:
  "ms (Seq (Lit s) r) (b, s @ a, cs) = ms r (rev s @ b, a, cs)"
  by simp

section \<open>The version pattern\<close>

lemma greedy_splits_hd:
  assumes "\<forall>c\<in>set xs. P c" and "a = [] \<or> \<not> P (hd a)"
  shows "\<exists>more. greedy_splits P b (xs @ a) = (rev xs @ b, a) # more"
  using assms(1)
proof (induction xs arbitrary: b)
  case Nil
  from assms(2) show ?case by (cases a) auto
next
  case (Cons x xs)
  then obtain more where "greedy_splits P (x # b) (xs @ a) = (rev xs @ x # b, a) # more"
    by fastforce
  with Cons.prems show ?case by simp
qed


lemma hash_not_space [simp]: "\<not> in_class Space CHR ''#''"
  by (simp add: in_class.simps)

lemma newline_space [simp]: "in_class Space newline"
  by (simp add: in_class.simps newline_def)



lemma version_rx_unfold:
  "version_rx = Seq Bol (Seq (Star Space)
     (Grp 1 (Seq (Lit ''#version'') (Seq (Plus Space) (Plus Word)))))"
  by (simp add: version_rx_def)


lemma ms_Seq_Bol:
  "ms (Seq Bol r) (b, a, cs) =
     (if b = [] \<or> (hd b = newline \<and> a \<noteq> []) then ms r (b, a, cs) else [])"
  by auto


subsection \<open>Scanning a text for matches\<close>

lemma exec_not_bol:
  "b \<noteq> [] \<Longrightarrow> hd b \<noteq> newline \<Longrightarrow> rx_exec (Seq Bol r) b a = None"
  unfolding rx_exec_def ms_Seq_Bol by simp

lemma remove_skip_all:
  assumes "\<And>u1 u2. u = u1 @ u2 \<Longrightarrow> u2 \<noteq> [] \<Longrightarrow> rx_exec r (rev u1 @ b) (u2 @ rest) = None"
  shows "remove_from r b (u @ rest) = u @ remove_from r (rev u @ b) rest"
  using assms
proof (induction u arbitrary: b)
  case Nil
  then show ?case by simp
next
  case (Cons c u)
  from Cons.prems[of "[]" "c # u"] have e: "rx_exec r b (c # u @ rest) = None" by simp
  have "remove_from r (c # b) (u @ rest) = u @ remove_from r (rev u @ c # b) rest"
  proof (rule Cons.IH)
    fix u1 u2
    assume "u = u1 @ u2" and "u2 \<noteq> []"
    with Cons.prems[of "c # u1" u2] show "rx_exec r (rev u1 @ c # b) (u2 @ rest) = None" by simp
  qed
  with e show ?case by simp
qed

lemma remove_match:
  assumes "rx_exec r b (u @ rest) = Some (rev u @ b, rest, cs)" and "u \<noteq> []"
  shows "remove_from r b (u @ rest) = remove_from r (rev u @ b) rest"
proof -
  from assms(2) obtain c u' where u: "u = c # u'" by (cases u) auto
  with assms(1) show ?thesis by simp
qed



text \<open>A line that a pattern anchored at the start of a line cannot match inside.\<close>

lemma line_rest_no_match:
  assumes "newline \<notin> set v" and "b \<noteq> []" and "hd b \<noteq> newline"
    and "v @ [newline] = u1 @ u2" and "u2 \<noteq> []"
  shows "rx_exec (Seq Bol r) (rev u1 @ b) (u2 @ rest) = None"
proof (rule exec_not_bol)
  show "rev u1 @ b \<noteq> []" using assms(2) by simp
  show "hd (rev u1 @ b) \<noteq> newline"
  proof (cases u1 rule: rev_cases)
    case Nil
    with assms(3) show ?thesis by simp
  next
    case (snoc ys y)
    from assms(4,5) snoc have "y \<in> set v"
      by (cases u2 rule: rev_cases) auto
    with assms(1) snoc show ?thesis by auto
  qed
qed

subsection \<open>Lines without a directive\<close>

lemma take_literal_differs:
  assumes "\<not> prefix s body" and "newline \<notin> set s"
  shows "take (length s) (body @ newline # rest) \<noteq> s"
proof
  assume t: "take (length s) (body @ newline # rest) = s"
  show False
  proof (cases "length s \<le> length body")
    case True
    with t have "take (length s) body = s" by simp
    then have "prefix s body" by (metis take_is_prefix)
    with assms(1) show False by simp
  next
    case False
    then have l: "length body < length s" by simp
    then have "take (length s) (body @ newline # rest) ! length body = newline"
      by (simp add: nth_append)
    with t have "s ! length body = newline" by simp
    with l have "newline \<in> set s" by (metis nth_mem)
    with assms(2) show False by simp
  qed
qed




subsection \<open>Sources described line by line\<close>












subsection \<open>What a match consumes and captures\<close>

lemma ms_consumes_chars:
  "(b', a', cs') \<in> set (ms r (b, a, cs)) \<Longrightarrow>
     \<exists>xs. a = xs @ a' \<and> b' = rev xs @ b \<and> (\<forall>c\<in>set xs. may_consume r c)"
proof (induction r arbitrary: b a cs b' a' cs')
  case Bol
  then show ?case by (auto split: if_splits)
next
  case (Lit s)
  then have t: "take (length s) a = s" and e: "b' = rev s @ b" "a' = drop (length s) a"
    by (auto split: if_splits)
  from t have "a = s @ drop (length s) a"
    by (metis append_take_drop_id)
  with e show ?case by auto
next
  case (Star k)
  then show ?case by (auto simp: greedy_splits_set)
next
  case (Plus k)
  show ?case
  proof (cases a)
    case Nil
    with Plus show ?thesis by simp
  next
    case (Cons d a0)
    with Plus have d: "in_class k d" and "(b', a') \<in> set (greedy_splits (in_class k) (d # b) a0)"
      by (auto split: if_splits)
    then obtain xs where "a0 = xs @ a'" "b' = rev xs @ d # b" "\<forall>c\<in>set xs. in_class k c"
      by (auto simp: greedy_splits_set)
    with d Cons show ?thesis by (intro exI[of _ "d # xs"]) simp
  qed
next
  case (LazyStar k)
  then show ?case by (auto simp: lazy_splits_set greedy_splits_set)
next
  case (Opt r)
  then show ?case by auto
next
  case (Grp n r)
  then show ?case by auto
next
  case (Seq r1 r2)
  from Seq.prems obtain b1 a1 cs1 where
    u: "(b1, a1, cs1) \<in> set (ms r1 (b, a, cs))" and t: "(b', a', cs') \<in> set (ms r2 (b1, a1, cs1))"
    by auto
  from Seq.IH(1)[OF u] obtain xs where
    xs: "a = xs @ a1" "b1 = rev xs @ b" "\<forall>c\<in>set xs. may_consume r1 c" by blast
  from Seq.IH(2)[OF t] obtain ys where
    ys: "a1 = ys @ a'" "b' = rev ys @ b1" "\<forall>c\<in>set ys. may_consume r2 c" by blast
  from xs ys show ?case by (intro exI[of _ "xs @ ys"]) auto
qed

lemma grp_capture:
  assumes "(b', a', cs') \<in> set (ms (Grp n r) (b, a, cs))"
  shows "\<exists>zs cs0. cs' = (n, zs) # cs0 \<and> (\<forall>c\<in>set zs. may_consume r c)"
proof -
  from assms obtain cs0 where m: "(b', a', cs0) \<in> set (ms r (b, a, cs))"
    and c: "cs' = (n, rev (take (length b' - length b) b')) # cs0"
    by auto
  from ms_consumes_chars [OF m] obtain xs where
    xs: "b' = rev xs @ b" "\<forall>c\<in>set xs. may_consume r c" by blast
  then have "rev (take (length b' - length b) b') = xs" by simp
  with c xs(2) show ?thesis by blast
qed

lemma exec_in_ms:
  assumes "rx_exec r b a = Some m"
  shows "m \<in> set (ms r (b, a, []))"
proof (cases "ms r (b, a, [])")
  case Nil
  with assms show ?thesis by (simp add: rx_exec_def)
next
  case (Cons s more)
  with assms have "s = m" by (simp add: rx_exec_def)
  with Cons show ?thesis by simp
qed

lemma search_in_ms:
  "rx_search r b a = Some m \<Longrightarrow> \<exists>b' a'. m \<in> set (ms r (b', a', []))"
proof (induction a arbitrary: b)
  case Nil
  then have "rx_exec r b [] = Some m" by simp
  then show ?case by (blast dest: exec_in_ms)
next
  case (Cons c a)
  show ?case
  proof (cases "rx_exec r b (c # a)")
    case None
    with Cons show ?thesis by simp
  next
    case (Some s)
    with Cons.prems have "s = m" by simp
    with Some show ?thesis by (blast dest: exec_in_ms)
  qed
qed

lemma version_capture_chars:
  assumes "rx_match version_rx source = Some m"
  shows "CHR ''%'' \<notin> set (captured 1 m)"
proof -
  define X where "X = Seq (Lit ''#version'') (Seq (Plus Space) (Plus Word))"
  have nc: "\<not> may_consume X CHR ''%''"
    by (simp add: X_def in_class.simps)
  from assms obtain b a where "m \<in> set (ms version_rx (b, a, []))"
    unfolding rx_match_def by (blast dest: search_in_ms)
  then obtain s where "m \<in> set (ms (Grp 1 X) s)"
    unfolding version_rx_unfold X_def by (auto split: if_splits simp del: ms.simps(7))
  then obtain zs cs0 where "snd (snd m) = (1, zs) # cs0" "\<forall>c\<in>set zs. may_consume X c"
    using grp_capture [of "fst m" "fst (snd m)" "snd (snd m)" 1 X "fst s" "fst (snd s)" "snd (snd s)"]
    by auto
  with nc show ?thesis by (auto simp: captured_def)
qed

section \<open>Version extraction\<close>




section \<open>The header of a stage\<close>

lemma arg_tokens_plain:
  "CHR ''%'' \<notin> set v \<Longrightarrow> arg_tokens (v @ rest) = map Plain v @ arg_tokens rest"
  by (induction v) auto

lemma escape_numbers_plain: "escape_numbers (map Plain v @ ts) = escape_numbers ts"
  by (induction v) simp_all

lemma replace_plain:
  "concat (map (replace_escape m a) (map Plain v @ ts)) = v @ concat (map (replace_escape m a) ts)"
  by (induction v) simp_all

lemma replace_only_plain: "concat (map (replace_escape m a \<circ> Plain) v) = v"
  by (induction v) simp_all

lemma header_rest_tokens:
  "arg_tokens (newline # ''#extension GL_ARB_shading_language_420pack : enable'' @ newline #
       ''#define PARAMETER_UNIFORM'' @ newline # ''#define %1'' @ newline # ''#line 1'' @ [newline]) =
     map Plain (newline # ''#extension GL_ARB_shading_language_420pack : enable'' @ newline #
       ''#define PARAMETER_UNIFORM'' @ newline # ''#define '') @
     Escape 1 ''%1'' # map Plain (newline # ''#line 1'' @ [newline])"
  by (simp add: newline_def parse_escape_def digitValue_def)

lemma header_arg:
  assumes "CHR ''%'' \<notin> set version_line"
  shows "qstring_arg (join newline (header version_line)) macro =
           version_line @ newline # ''#extension GL_ARB_shading_language_420pack : enable'' @
           newline # ''#define PARAMETER_UNIFORM'' @ newline # ''#define '' @ macro @
           newline # ''#line 1'' @ [newline]"
proof -
  have j: "join newline (header version_line) =
      version_line @ (newline # ''#extension GL_ARB_shading_language_420pack : enable'' @ newline #
       ''#define PARAMETER_UNIFORM'' @ newline # ''#define %1'' @ newline # ''#line 1'' @ [newline])"
    by (simp add: header_def)
  show ?thesis
    unfolding j qstring_arg_def arg_tokens_plain [OF assms] header_rest_tokens
    by (simp add: escape_numbers_plain replace_plain replace_only_plain Let_def
        del: arg_tokens.simps)
qed

lemma effective_version_chars:
  assumes "CHR ''%'' \<notin> set glslVersion"
  shows "CHR ''%'' \<notin> set (fst (extract_version glslVersion source))"
proof (cases "rx_match version_rx source")
  case None
  with assms show ?thesis by (simp add: extract_version_def)
next
  case (Some m)
  from version_capture_chars [OF Some] Some show ?thesis by (simp add: extract_version_def)
qed

lemma stage_text_header:
  assumes "CHR ''%'' \<notin> set glslVersion"
  shows "stage_text macro glslVersion source0 =
           fst (version_and_body glslVersion source0) @
           ''\<newline>#extension GL_ARB_shading_language_420pack : enable\<newline>#define PARAMETER_UNIFORM\<newline>#define '' @
           macro @ ''\<newline>#line 1\<newline>'' @
           snd (version_and_body glslVersion source0)"
proof -
  have "CHR ''%'' \<notin> set (fst (version_and_body glslVersion source0))"
    unfolding version_and_body_def using assms by (rule effective_version_chars)
  from header_arg [OF this, of macro] show ?thesis
    by (simp add: stage_text_def version_and_body_def Let_def case_prod_unfold newline_def)
qed

text \<open>
  C5, as amended. For every pass that assembles, with a default version directive that
  holds no \<open>%\<close>, the text compiled for a stage is the effective version line, the
  extension-enable directive, the parameter-uniform macro definition, the stage macro
  definition (\<open>VERTEX\<close> for the vertex stage, \<open>FRAGMENT\<close> for the fragment stage) and the
  line-number reset directive, each ended by a newline and in this order, followed at
  once by the stripped body. The two stages differ in the stage macro only.
\<close>

theorem stage_header_lines:
  assumes "addShader_source env source0 path P this = (Done, this')"
    and "CHR ''%'' \<notin> set (m_glslVersion this)"
  shows "attached (m_shader (last (m_shaders this'))) =
     [(Vertex,
       fst (version_and_body (m_glslVersion this) source0) @
       ''\<newline>#extension GL_ARB_shading_language_420pack : enable\<newline>#define PARAMETER_UNIFORM\<newline>#define VERTEX\<newline>#line 1\<newline>'' @
       snd (version_and_body (m_glslVersion this) source0)),
      (Fragment,
       fst (version_and_body (m_glslVersion this) source0) @
       ''\<newline>#extension GL_ARB_shading_language_420pack : enable\<newline>#define PARAMETER_UNIFORM\<newline>#define FRAGMENT\<newline>#line 1\<newline>'' @
       snd (version_and_body (m_glslVersion this) source0))]"
proof -
  from assms(1) have "attached (m_shader (last (m_shaders this'))) =
     [(Vertex, stage_text ''VERTEX'' (m_glslVersion this) source0),
      (Fragment, stage_text ''FRAGMENT'' (m_glslVersion this) source0)]"
    by (auto simp: addShader_source_def Let_def addShaderFromSourceCode_def link_def
        OpenGLShaderPass_def new_program_def split: if_splits prod.splits)
  then show ?thesis
    unfolding stage_text_header [OF assms(2)] by simp
qed

lemma example_stage_done:
  "fst (addShader_source example_backend ''#version 150\<newline>void main(){}\<newline>'' ''a.glsl'' []
     (initial_options ''#version 130'')) = Done"
  by (simp add: addShader_source_def example_backend_def addShaderFromSourceCode_def
      link_def Let_def)

theorem stage_header_lines_witness:
  "attached (m_shader (last (m_shaders (snd
     (addShader_source example_backend ''#version 150\<newline>void main(){}\<newline>'' ''a.glsl'' []
        (initial_options ''#version 130''))))))
   = [(Vertex, ''#version 150\<newline>#extension GL_ARB_shading_language_420pack : enable\<newline>#define PARAMETER_UNIFORM\<newline>#define VERTEX\<newline>#line 1\<newline>\<newline>void main(){}\<newline>''),
      (Fragment, ''#version 150\<newline>#extension GL_ARB_shading_language_420pack : enable\<newline>#define PARAMETER_UNIFORM\<newline>#define FRAGMENT\<newline>#line 1\<newline>\<newline>void main(){}\<newline>'')]"
proof -
  have vb: "version_and_body ''#version 130'' ''#version 150\<newline>void main(){}\<newline>''
      = (''#version 150'', ''\<newline>void main(){}\<newline>'')"
    by code_simp
  obtain r this' where a:
    "addShader_source example_backend ''#version 150\<newline>void main(){}\<newline>'' ''a.glsl'' []
        (initial_options ''#version 130'') = (r, this')"
    by (cases "addShader_source example_backend ''#version 150\<newline>void main(){}\<newline>''
        ''a.glsl'' [] (initial_options ''#version 130'')") auto
  with example_stage_done have "r = Done" by simp
  with a stage_header_lines [of example_backend _ _ _ "initial_options ''#version 130''" this'] vb
  show ?thesis
    by (simp add: initial_options_def)
qed

text \<open>
  C5 as stated fails: the parameter-uniform macro definition comes before the stage
  macro definition, not after it.
\<close>

theorem stage_header_order_counterexample:
  "stage_text ''VERTEX'' ''#version 130'' ''void main(){}\<newline>'' =
     ''#version 130\<newline>#extension GL_ARB_shading_language_420pack : enable\<newline>#define PARAMETER_UNIFORM\<newline>#define VERTEX\<newline>#line 1\<newline>void main(){}\<newline>''
   \<and> stage_text ''VERTEX'' ''#version 130'' ''void main(){}\<newline>'' \<noteq>
     ''#version 130\<newline>#extension GL_ARB_shading_language_420pack : enable\<newline>#define VERTEX\<newline>#define PARAMETER_UNIFORM\<newline>#line 1\<newline>void main(){}\<newline>''
   \<and> attached (m_shader (last (m_shaders (snd
        (addShader_source example_backend ''void main(){}\<newline>'' ''a.glsl'' []
           (initial_options ''#version 130''))))))
     = [(Vertex, stage_text ''VERTEX'' ''#version 130'' ''void main(){}\<newline>''),
        (Fragment, stage_text ''FRAGMENT'' ''#version 130'' ''void main(){}\<newline>'')]"
  by code_simp

section \<open>The parameter pattern\<close>

lemma ms_needs:
  "needs r c \<Longrightarrow> (b', a', cs') \<in> set (ms r (b, a, cs)) \<Longrightarrow> \<exists>xs. a = xs @ a' \<and> c \<in> set xs"
proof (induction r arbitrary: b a cs b' a' cs')
  case (Lit s)
  then have t: "take (length s) a = s" and e: "a' = drop (length s) a"
    by (auto split: if_splits)
  from t have "a = s @ drop (length s) a"
    by (metis append_take_drop_id)
  with e Lit.prems(1) show ?case by auto
next
  case (Grp n r)
  then show ?case by auto
next
  case (Seq r1 r2)
  from Seq.prems obtain b1 a1 cs1 where
    u: "(b1, a1, cs1) \<in> set (ms r1 (b, a, cs))" and t: "(b', a', cs') \<in> set (ms r2 (b1, a1, cs1))"
    by auto
  from ms_consumes [OF u] obtain xs where xs: "a = xs @ a1" by blast
  from ms_consumes [OF t] obtain ys where ys: "a1 = ys @ a'" by blast
  from Seq.prems(1) have "needs r1 c \<or> needs r2 c" by simp
  then show ?case
  proof
    assume "needs r1 c"
    from Seq.IH(1) [OF this u] obtain zs where "a = zs @ a1" "c \<in> set zs" by blast
    with ys show ?thesis by (intro exI[of _ "zs @ ys"]) simp
  next
    assume "needs r2 c"
    from Seq.IH(2) [OF this t] obtain zs where "a1 = zs @ a'" "c \<in> set zs" by blast
    with xs show ?thesis by (intro exI[of _ "xs @ zs"]) simp
  qed
qed simp_all

lemma ms_fail_needs:
  assumes "needs r c" and "c \<notin> set a"
  shows "ms r (b, a, cs) = []"
proof (rule ccontr)
  assume "ms r (b, a, cs) \<noteq> []"
  then obtain t where "t \<in> set (ms r (b, a, cs))" by (cases "ms r (b, a, cs)") auto
  then obtain b' a' cs' where "(b', a', cs') \<in> set (ms r (b, a, cs))"
    by (metis prod_cases3)
  from ms_needs [OF assms(1) this] assms(2) show False by auto
qed

lemma ms_Seq_Grp_Plus:
  assumes "xs \<noteq> []" and "\<forall>c\<in>set xs. in_class k c" and "a = [] \<or> \<not> in_class k (hd a)"
    and "\<not> nullable r" and "\<And>d. in_class k d \<Longrightarrow> \<not> first r d"
  shows "ms (Seq (Grp n (Plus k)) r) (b, xs @ a, cs) = ms r (rev xs @ b, a, (n, xs) # cs)"
proof -
  from assms(1) obtain x xs' where x: "xs = x # xs'" by (cases xs) auto
  define F where "F = (\<lambda>(b', a'). ms r (b', a', (n, rev (take (length b' - length b) b')) # cs))"
  have "concat (map F (greedy_splits (in_class k) (x # b) (xs' @ a))) = F (rev xs' @ x # b, a)"
    using assms x by (intro greedy_commit) (auto simp: ms_fail_first F_def)
  moreover have "F (rev xs' @ x # b, a) = ms r (rev xs @ b, a, (n, xs) # cs)"
    by (simp add: F_def x)
  moreover have "ms (Seq (Grp n (Plus k)) r) (b, xs @ a, cs) =
      concat (map F (greedy_splits (in_class k) (x # b) (xs' @ a)))"
    using x assms(2) by (simp add: F_def map_concat comp_def case_prod_unfold)
  ultimately show ?thesis by simp
qed

text \<open>A greedy run that must give back up to the last place where the next pattern can start.\<close>

lemma greedy_none:
  assumes "\<forall>y\<in>set ys. P y \<and> y \<noteq> c" and "a = [] \<or> (\<not> P (hd a) \<and> hd a \<noteq> c)"
    and "\<And>b'. F (b', []) = []" and "\<And>b' d a'. d \<noteq> c \<Longrightarrow> F (b', d # a') = []"
  shows "concat (map F (greedy_splits P b (ys @ a))) = []"
  using assms(1)
proof (induction ys arbitrary: b)
  case Nil
  from assms(2,3,4) show ?case by (cases a) auto
next
  case (Cons y ys)
  then show ?case using assms(4) [of y b "ys @ a"] by simp
qed

lemma greedy_until:
  assumes "\<forall>x\<in>set xs. P x \<and> x \<noteq> c" and "P c"
    and "\<forall>y\<in>set ys. P y \<and> y \<noteq> c" and "a = [] \<or> (\<not> P (hd a) \<and> hd a \<noteq> c)"
    and "\<And>b'. F (b', []) = []" and "\<And>b' d a'. d \<noteq> c \<Longrightarrow> F (b', d # a') = []"
  shows "concat (map F (greedy_splits P b (xs @ c # ys @ a))) = F (rev xs @ b, c # ys @ a)"
  using assms(1)
proof (induction xs arbitrary: b)
  case Nil
  have "concat (map F (greedy_splits P (c # b) (ys @ a))) = []"
    using assms(3,4,5,6) by (rule greedy_none)
  with assms(2) show ?case by simp
next
  case (Cons x xs)
  then show ?case using assms(6) [of x b "xs @ c # ys @ a"] by simp
qed

lemma ms_Seq_Grp_Plus_until:
  assumes "xs \<noteq> []" and "\<forall>x\<in>set xs. in_class k x \<and> x \<noteq> c" and "in_class k c"
    and "\<forall>y\<in>set ys. in_class k y \<and> y \<noteq> c"
    and "a = [] \<or> (\<not> in_class k (hd a) \<and> hd a \<noteq> c)"
    and "\<not> nullable r" and "\<And>d. d \<noteq> c \<Longrightarrow> \<not> first r d"
  shows "ms (Seq (Grp n (Plus k)) r) (b, xs @ c # ys @ a, cs) =
           ms r (rev xs @ b, c # ys @ a, (n, xs) # cs)"
proof -
  from assms(1) obtain x xs' where x: "xs = x # xs'" by (cases xs) auto
  define F where "F = (\<lambda>(b', a'). ms r (b', a', (n, rev (take (length b' - length b) b')) # cs))"
  have "concat (map F (greedy_splits (in_class k) (x # b) (xs' @ c # ys @ a)))
          = F (rev xs' @ x # b, c # ys @ a)"
    using assms x by (intro greedy_until) (auto simp: ms_fail_first ms_fail_empty F_def)
  moreover have "F (rev xs' @ x # b, c # ys @ a) = ms r (rev xs @ b, c # ys @ a, (n, xs) # cs)"
    by (simp add: F_def x)
  moreover have "ms (Seq (Grp n (Plus k)) r) (b, xs @ c # ys @ a, cs) =
      concat (map F (greedy_splits (in_class k) (x # b) (xs' @ c # ys @ a)))"
    using x assms(2) by (simp add: F_def map_concat comp_def case_prod_unfold)
  ultimately show ?thesis by simp
qed

lemma lazy_commit:
  assumes "\<forall>c\<in>set xs. P c" and "a = [] \<or> \<not> P (hd a)"
    and "\<And>b' d a'. P d \<Longrightarrow> F (b', d # a') = []"
  shows "concat (map F (lazy_splits P b (xs @ a))) = F (rev xs @ b, a)"
  using assms(1)
proof (induction xs arbitrary: b)
  case Nil
  from assms(2) show ?case by (cases a) auto
next
  case (Cons x xs)
  then show ?case using assms(3)[of x b "xs @ a"] by simp
qed

lemma ms_line_end:
  assumes "newline \<notin> set v"
  shows "ms (Seq (LazyStar AnyChar) (Lit [newline])) (b, v @ newline # rest, cs) =
           [(newline # rev v @ b, rest, cs)]"
proof -
  define F where "F = (\<lambda>(b', a'). ms (Lit [newline]) (b', a', cs))"
  have "concat (map F (lazy_splits (in_class AnyChar) b (v @ newline # rest)))
          = F (rev v @ b, newline # rest)"
    using assms by (intro lazy_commit) (auto simp: F_def in_class.simps)
  then show ?thesis
    by (simp add: F_def map_concat comp_def case_prod_unfold)
qed

subsection \<open>Numbers\<close>

lemma minus_not_dotdigit [simp]: "\<not> in_class DotDigit CHR ''-''"
  by (simp add: in_class.simps)

lemma is_number_decomp:
  assumes "is_number n"
  obtains sign d ds where "n = sign @ d # ds" and "sign = [] \<or> sign = ''-''"
    and "in_class DotDigit d" and "\<forall>c\<in>set ds. in_class DotDigit c"
proof (cases n)
  case Nil
  with assms show ?thesis by simp
next
  case (Cons c ds)
  show ?thesis
  proof (cases "c = CHR ''-''")
    case True
    with assms Cons obtain d ds' where "ds = d # ds'" "in_class DotDigit d"
      "\<forall>c\<in>set ds'. in_class DotDigit c"
      by (cases ds) (auto simp: list_all_iff)
    with True Cons that [of "''-''" d ds'] show ?thesis by simp
  next
    case False
    with assms Cons have "in_class DotDigit c" "\<forall>c\<in>set ds. in_class DotDigit c"
      by (auto simp: list_all_iff)
    with Cons that [of "[]" c ds] show ?thesis by simp
  qed
qed

lemma ms_number_rx:
  assumes "sign = [] \<or> sign = ''-''" and "in_class DotDigit d"
  shows "ms number_rx (b, sign @ d # u, cs) =
           map (\<lambda>(b', a'). (b', a', cs)) (greedy_splits (in_class DotDigit) (d # rev sign @ b) u)"
proof -
  from assms(2) have "d \<noteq> CHR ''-''" by auto
  with assms show ?thesis
    by (auto simp: number_rx_def)
qed

lemma ms_Seq_Grp_number:
  assumes "is_number n" and "a = [] \<or> \<not> in_class DotDigit (hd a)"
    and "\<not> nullable r" and "\<And>d. in_class DotDigit d \<Longrightarrow> \<not> first r d"
  shows "ms (Seq (Grp g number_rx) r) (b, n @ a, cs) = ms r (rev n @ b, a, (g, n) # cs)"
proof -
  from assms(1) obtain sign d ds where n: "n = sign @ d # ds" and s: "sign = [] \<or> sign = ''-''"
    and d: "in_class DotDigit d" and ds: "\<forall>c\<in>set ds. in_class DotDigit c"
    by (rule is_number_decomp)
  define F where "F = (\<lambda>(b', a'). ms r (b', a', (g, rev (take (length b' - length b) b')) # cs))"
  have "concat (map F (greedy_splits (in_class DotDigit) (d # rev sign @ b) (ds @ a)))
          = F (rev ds @ d # rev sign @ b, a)"
    using ds assms(2,3,4) by (intro greedy_commit) (auto simp: ms_fail_first F_def)
  moreover have "F (rev ds @ d # rev sign @ b, a) = ms r (rev n @ b, a, (g, n) # cs)"
    by (simp add: F_def n)
  moreover have "ms (Seq (Grp g number_rx) r) (b, n @ a, cs) =
      concat (map F (greedy_splits (in_class DotDigit) (d # rev sign @ b) (ds @ a)))"
    unfolding ms.simps(8) ms.simps(7) n
    using ms_number_rx [OF s d, of b "ds @ a" cs]
    by (simp add: F_def map_concat comp_def case_prod_unfold)
  ultimately show ?thesis by simp
qed

lemma ms_Grp_number_hd:
  assumes "is_number n" and "a = [] \<or> \<not> in_class DotDigit (hd a)"
  shows "\<exists>more. ms (Grp g number_rx) (b, n @ a, cs) = (rev n @ b, a, (g, n) # cs) # more"
proof -
  from assms(1) obtain sign d ds where n: "n = sign @ d # ds" and s: "sign = [] \<or> sign = ''-''"
    and d: "in_class DotDigit d" and ds: "\<forall>c\<in>set ds. in_class DotDigit c"
    by (rule is_number_decomp)
  from greedy_splits_hd [OF ds assms(2), of "d # rev sign @ b"] obtain more where
    "greedy_splits (in_class DotDigit) (d # rev sign @ b) (ds @ a) =
       (rev ds @ d # rev sign @ b, a) # more" by blast
  with ms_number_rx [OF s d, of b "ds @ a" cs] show ?thesis
    unfolding ms.simps(7) n by simp
qed

subsection \<open>The end of a parameter line\<close>

lemma split_before:
  assumes "zs @ au = tail @ c # rest" and "c \<notin> set zs"
  obtains t2 where "tail = zs @ t2" and "au = t2 @ c # rest"
proof -
  from append_eq_append_conv2 [THEN iffD1, OF assms(1)] obtain us where
    d: "(zs = tail @ us \<and> us @ au = c # rest) \<or> (zs @ us = tail \<and> au = us @ c # rest)"
    by blast
  then show ?thesis
  proof
    assume l: "zs = tail @ us \<and> us @ au = c # rest"
    show ?thesis
    proof (cases us)
      case Nil
      with l have "tail = zs @ []" "au = [] @ c # rest" by simp_all
      then show ?thesis by (rule that)
    next
      case (Cons u us')
      with l have "u = c" by simp
      with l Cons assms(2) show ?thesis by simp
    qed
  next
    assume "zs @ us = tail \<and> au = us @ c # rest"
    then have "tail = zs @ us" "au = us @ c # rest" by blast+
    then show ?thesis by (rule that)
  qed
qed

lemma split_across:
  assumes "xs @ w = tail @ c # rest" and "c \<in> set xs" and "c \<notin> set tail"
  obtains xs2 where "xs = tail @ c # xs2" and "rest = xs2 @ w"
proof -
  from append_eq_append_conv2 [THEN iffD1, OF assms(1)] obtain us where
    d: "(xs = tail @ us \<and> us @ w = c # rest) \<or> (xs @ us = tail \<and> w = us @ c # rest)"
    by blast
  then show ?thesis
  proof
    assume l: "xs = tail @ us \<and> us @ w = c # rest"
    show ?thesis
    proof (cases us)
      case Nil
      with l assms(2,3) show ?thesis by simp
    next
      case (Cons u us')
      with l have "u = c" "rest = us' @ w" by simp_all
      with l Cons have "xs = tail @ c # us'" by simp
      then show ?thesis using \<open>rest = us' @ w\<close> by (rule that)
    qed
  next
    assume "xs @ us = tail \<and> w = us @ c # rest"
    then have "set xs \<subseteq> set tail" by auto
    with assms(2,3) show ?thesis by auto
  qed
qed

lemma number_start_not_space: "number_start c \<Longrightarrow> \<not> in_class Space c"
  by (auto simp: number_start_def in_class.simps)

lemma newline_not_number_start [simp]: "\<not> number_start newline"
  by (auto simp: number_start_def in_class.simps newline_def)

lemma may_consume_number: "may_consume number_rx c = number_start c"
  by (auto simp: number_rx_def number_start_def)

lemma in_ms_Grp:
  "(b', a', cs') \<in> set (ms (Grp n r) (b, a, cs)) \<Longrightarrow> \<exists>cs0. (b', a', cs0) \<in> set (ms r (b, a, cs))"
  by auto

lemma in_ms_Seq:
  "t \<in> set (ms (Seq r1 r2) s) \<Longrightarrow> \<exists>b1 a1 c1. (b1, a1, c1) \<in> set (ms r1 s) \<and> t \<in> set (ms r2 (b1, a1, c1))"
  by auto

lemma step_stays_in_line:
  assumes "(bu, au, csu) \<in> set (ms (Grp 6 (Seq (Plus Space) number_rx)) (b, tail @ newline # rest, cs))"
    and "newline \<notin> set tail" and "no_number_ahead rest"
  obtains t1 t2 where "tail = t1 @ t2" and "bu = rev t1 @ b" and "au = t2 @ newline # rest"
proof -
  from in_ms_Grp [OF assms(1)] obtain cs0 where
    "(bu, au, cs0) \<in> set (ms (Seq (Plus Space) number_rx) (b, tail @ newline # rest, cs))"
    by blast
  from in_ms_Seq [OF this] obtain b1 a1 c1 where
    m1: "(b1, a1, c1) \<in> set (ms (Plus Space) (b, tail @ newline # rest, cs))"
    and m2: "(bu, au, cs0) \<in> set (ms number_rx (b1, a1, c1))"
    by blast
  from ms_consumes_chars [OF m1] obtain xs where
    xs: "tail @ newline # rest = xs @ a1" "b1 = rev xs @ b" "\<forall>c\<in>set xs. in_class Space c"
    by auto
  from ms_consumes_chars [OF m2] obtain ys where
    ys: "a1 = ys @ au" "bu = rev ys @ b1" "\<forall>c\<in>set ys. number_start c"
    by (auto simp: may_consume_number)
  have "\<not> nullable number_rx" by (simp add: number_rx_def)
  from ms_nonnull_shorter [OF this m2] ys(1) have yn: "ys \<noteq> []" by auto
  have e: "xs @ (ys @ au) = tail @ newline # rest" using xs(1) ys(1) by simp
  have nx: "newline \<notin> set xs"
  proof
    assume "newline \<in> set xs"
    from split_across [OF e this assms(2)] obtain xs2 where
      x2: "xs = tail @ newline # xs2" "rest = xs2 @ ys @ au" by blast
    from x2(1) xs(3) have "\<forall>c\<in>set xs2. in_class Space c" by simp
    moreover from yn ys(3) have "\<not> in_class Space (hd ys)" "number_start (hd ys)"
      by (simp_all add: number_start_not_space)
    ultimately have "dropWhile (in_class Space) rest = ys @ au"
      using yn x2(2) by (cases ys) (simp_all add: dropWhile_append3)
    with assms(3) yn \<open>number_start (hd ys)\<close> show False
      by (cases ys) (simp_all add: no_number_ahead_def)
  qed
  from ys(3) have "newline \<notin> set ys" by auto
  with nx have n: "newline \<notin> set (xs @ ys)" by simp
  from e have e': "(xs @ ys) @ au = tail @ newline # rest" by simp
  from split_before [OF e' n] obtain t2 where
    t: "tail = (xs @ ys) @ t2" "au = t2 @ newline # rest" by blast
  from xs(2) ys(2) have "bu = rev (xs @ ys) @ b" by simp
  with t show ?thesis by (intro that [of "xs @ ys" t2])
qed

lemma tail_ends:
  assumes "newline \<notin> set tail" and "no_number_ahead rest"
  shows "\<exists>cs' more.
           ms (Seq (Opt (Grp 6 (Seq (Plus Space) number_rx)))
                 (Seq (LazyStar AnyChar) (Lit [newline])))
              (b, tail @ newline # rest, cs) =
           (newline # rev tail @ b, rest, cs') # more"
proof -
  define G where "G = Grp 6 (Seq (Plus Space) number_rx)"
  define E where "E = Seq (LazyStar AnyChar) (Lit [newline])"
  define s where "s = (b, tail @ newline # rest, cs)"
  have here: "ms E s = [(newline # rev tail @ b, rest, cs)]"
    unfolding E_def s_def using assms(1) by (rule ms_line_end)
  have unf: "ms (Seq (Opt G) E) s = concat (map (ms E) (ms G s)) @ ms E s"
    by simp
  have ends: "fst t = newline # rev tail @ b \<and> fst (snd t) = rest"
    if "t \<in> set (ms (Seq (Opt G) E) s)" for t
  proof -
    from that unf have "t \<in> set (ms E s) \<or> (\<exists>u\<in>set (ms G s). t \<in> set (ms E u))"
      by auto
    then show ?thesis
    proof
      assume "t \<in> set (ms E s)"
      with here show ?thesis by simp
    next
      assume "\<exists>u\<in>set (ms G s). t \<in> set (ms E u)"
      then obtain bu au csu where u: "(bu, au, csu) \<in> set (ms G s)"
        and t: "t \<in> set (ms E (bu, au, csu))"
        by (metis prod_cases3)
      from u have "(bu, au, csu) \<in> set (ms (Grp 6 (Seq (Plus Space) number_rx))
                      (b, tail @ newline # rest, cs))"
        by (simp only: G_def s_def)
      from step_stays_in_line [OF this assms] obtain t1 t2 where
        d: "tail = t1 @ t2" "bu = rev t1 @ b" "au = t2 @ newline # rest" by blast
      from d(1) assms(1) have "newline \<notin> set t2" by simp
      then have "ms E (bu, t2 @ newline # rest, csu) = [(newline # rev t2 @ bu, rest, csu)]"
        unfolding E_def by (rule ms_line_end)
      with t d show ?thesis by simp
    qed
  qed
  from here unf have "ms (Seq (Opt G) E) s \<noteq> []" by simp
  then obtain t more where l: "ms (Seq (Opt G) E) s = t # more"
    by (cases "ms (Seq (Opt G) E) s") auto
  then have "t \<in> set (ms (Seq (Opt G) E) s)" by simp
  from ends [OF this] have "t = (newline # rev tail @ b, rest, snd (snd t))"
    by (cases t) simp
  with l have "ms (Seq (Opt G) E) s = (newline # rev tail @ b, rest, snd (snd t)) # more"
    by simp
  then show ?thesis unfolding G_def E_def s_def by blast
qed

subsection \<open>A parameter line is matched up to its end\<close>

lemma space_facts:
  "in_class Space d \<Longrightarrow>
     d \<noteq> CHR ''#'' \<and> d \<noteq> CHR ''p'' \<and> d \<noteq> dquote \<and> d \<noteq> CHR ''-'' \<and>
     \<not> in_class Word d \<and> \<not> in_class DotDigit d"
  by (auto simp: in_class.simps dquote_def)

lemma number_start_facts:
  "number_start d \<Longrightarrow> d \<noteq> newline \<and> d \<noteq> dquote \<and> \<not> in_class Space d"
  by (auto simp: number_start_def in_class.simps dquote_def newline_def)

lemma anychar_iff: "in_class AnyChar d = (d \<noteq> newline)"
  by (simp add: in_class.simps)

lemma newline_not_dquote [simp]: "newline \<noteq> dquote"
  by (simp add: newline_def dquote_def)

lemma gap_chars:
  assumes "gap g"
  shows "g \<noteq> []" and "\<forall>c\<in>set g. in_class Space c"
    and "\<forall>c\<in>set g. in_class AnyChar c \<and> c \<noteq> dquote" and "in_class Space (hd g)"
proof -
  from assms show 1: "g \<noteq> []" and 2: "\<forall>c\<in>set g. in_class Space c"
    by (simp_all add: gap_def list_all_iff)
  from assms 2 show "\<forall>c\<in>set g. in_class AnyChar c \<and> c \<noteq> dquote"
    by (auto simp: gap_def anychar_iff dest: space_facts)
  from 1 2 show "in_class Space (hd g)" by simp
qed

lemma number_chars:
  assumes "is_number n"
  shows "n \<noteq> []" and "\<forall>c\<in>set n. number_start c" and "number_start (hd n)"
proof -
  from assms obtain sign d ds where n: "n = sign @ d # ds" and s: "sign = [] \<or> sign = ''-''"
    and d: "in_class DotDigit d" and ds: "\<forall>c\<in>set ds. in_class DotDigit c"
    by (rule is_number_decomp)
  from n show "n \<noteq> []" by simp
  from n s d ds show "\<forall>c\<in>set n. number_start c" by (auto simp: number_start_def)
  from n s d show "number_start (hd n)" by (auto simp: number_start_def)
qed

lemma number_chars_any:
  assumes "is_number n"
  shows "\<forall>c\<in>set n. in_class AnyChar c \<and> c \<noteq> dquote"
  using number_chars(2) [OF assms] by (auto simp: anychar_iff dest: number_start_facts)

lemma parameter_rx_unfold: "parameter_rx = Seq Bol parameter_line_rx"
  by (simp add: parameter_rx_def parameter_line_rx_def)

lemma dquote_not_newline [simp]: "dquote \<noteq> newline"
  by (simp add: newline_def dquote_def)

lemma first_number_rx: "first number_rx d = number_start d"
  by (auto simp: number_rx_def number_start_def)

lemma nullable_number_rx [simp]: "\<not> nullable number_rx"
  by (simp add: number_rx_def)

lemma pragma_ms:
  assumes "pragma_ok p" and "no_number_ahead rest"
  shows "\<exists>cs' more.
     ms parameter_line_rx (b, pragma_text p @ rest, []) =
     (rev (pragma_text p) @ b, rest, cs') # more"
proof -
  define lead where "lead = p_lead p"
  define g1 where "g1 = p_gap1 p"
  define g2 where "g2 = p_gap2 p"
  define g3 where "g3 = p_gap3 p"
  define g4 where "g4 = p_gap4 p"
  define g5 where "g5 = p_gap5 p"
  define g6 where "g6 = p_gap6 p"
  define ident where "ident = p_identifier p"
  define desc where "desc = p_description p"
  define n1 where "n1 = p_initial p"
  define n2 where "n2 = p_minimum p"
  define n3 where "n3 = p_maximum p"
  define tail where "tail = p_tail p"
  define P1 where "P1 = ''#pragma''"
  define P2 where "P2 = ''parameter''"
  note fields = lead_def g1_def g2_def g3_def g4_def g5_def g6_def ident_def desc_def
    n1_def n2_def n3_def tail_def
  from assms(1) have lead: "\<forall>c\<in>set lead. in_class Space c"
    and g: "gap g1" "gap g2" "gap g3" "gap g4" "gap g5" "gap g6"
    and ident: "ident \<noteq> []" "\<forall>c\<in>set ident. in_class Word c"
    and desc: "desc \<noteq> []" "newline \<notin> set desc" "dquote \<notin> set desc"
    and n: "is_number n1" "is_number n2" "is_number n3"
    and tail: "newline \<notin> set tail" "dquote \<notin> set tail"
      "tail = [] \<or> \<not> in_class DotDigit (hd tail)"
    by (simp_all add: pragma_ok_def fields list_all_iff)
  have P: "P1 \<noteq> []" "hd P1 = CHR ''#''" "P2 \<noteq> []" "hd P2 = CHR ''p''"
    by (simp_all add: P1_def P2_def)
  define R17 where "R17 = Seq (Opt (Grp 6 (Seq (Plus Space) number_rx)))
            (Seq (LazyStar AnyChar) (Lit [newline]))"
  define R16 where "R16 = Seq (Grp 5 number_rx) R17"
  define R15 where "R15 = Seq (Plus Space) R16"
  define R14 where "R14 = Seq (Grp 4 number_rx) R15"
  define R13 where "R13 = Seq (Plus Space) R14"
  define R12 where "R12 = Seq (Grp 3 number_rx) R13"
  define R11 where "R11 = Seq (Plus Space) R12"
  define R10 where "R10 = Seq (Lit [dquote]) R11"
  define R9 where "R9 = Seq (Grp 2 (Plus AnyChar)) R10"
  define R8 where "R8 = Seq (Lit [dquote]) R9"
  define R7 where "R7 = Seq (Plus Space) R8"
  define R6 where "R6 = Seq (Grp 1 (Plus Word)) R7"
  define R5 where "R5 = Seq (Plus Space) R6"
  define R4 where "R4 = Seq (Lit P2) R5"
  define R3 where "R3 = Seq (Plus Space) R4"
  define R2 where "R2 = Seq (Lit P1) R3"
  define R1 where "R1 = Seq (Star Space) R2"
  define t16 where "t16 = tail @ newline # rest"
  define t15 where "t15 = n3 @ t16"
  define t14 where "t14 = g6 @ t15"
  define t13 where "t13 = n2 @ t14"
  define t12 where "t12 = g5 @ t13"
  define t11 where "t11 = n1 @ t12"
  define t10 where "t10 = g4 @ t11"
  define ys where "ys = g4 @ n1 @ g5 @ n2 @ g6 @ n3 @ tail"
  define t7 where "t7 = desc @ dquote # ys @ newline # rest"
  define t6 where "t6 = g3 @ dquote # t7"
  define t5 where "t5 = ident @ t6"
  define t4 where "t4 = g2 @ t5"
  define t3 where "t3 = P2 @ t4"
  define t2 where "t2 = g1 @ t3"
  define t1 where "t1 = P1 @ t2"
  have ys10: "ys @ newline # rest = t10"
    by (simp add: ys_def t10_def t11_def t12_def t13_def t14_def t15_def t16_def)
  have whole: "pragma_text p @ rest = lead @ t1"
    by (simp add: pragma_text_def fields [symmetric] t1_def t2_def t3_def t4_def t5_def t6_def
        t7_def ys_def P1_def P2_def)
  have 1: "ms R1 (b, lead @ t1, []) = ms R2 (rev lead @ b, t1, [])"
    unfolding R1_def using lead P
    by (intro ms_Seq_Star) (auto simp: R2_def t1_def dest: space_facts)
  have 2: "ms R2 (rev lead @ b, t1, []) = ms R3 (rev P1 @ rev lead @ b, t2, [])"
    unfolding R2_def t1_def by (rule ms_Seq_Lit)
  have 3: "ms R3 (rev P1 @ rev lead @ b, t2, []) = ms R4 (rev g1 @ rev P1 @ rev lead @ b, t3, [])"
    unfolding R3_def t2_def using gap_chars(1,2) [OF g(1)] P
    by (intro ms_Seq_Plus) (auto simp: R4_def t3_def dest: space_facts)
  define b4 where "b4 = rev P2 @ rev g1 @ rev P1 @ rev lead @ b"
  have 4: "ms R4 (rev g1 @ rev P1 @ rev lead @ b, t3, []) = ms R5 (b4, t4, [])"
    unfolding R4_def t3_def b4_def by (rule ms_Seq_Lit)
  have hi: "\<not> in_class Space (hd ident)"
    using ident by (cases ident) (auto dest: space_facts)
  have 5: "ms R5 (b4, t4, []) = ms R6 (rev g2 @ b4, t5, [])"
    unfolding R5_def t4_def using gap_chars(1,2) [OF g(2)] ident hi
    by (intro ms_Seq_Plus) (auto simp: R6_def t5_def dest: space_facts)
  have 6: "ms R6 (rev g2 @ b4, t5, []) = ms R7 (rev ident @ rev g2 @ b4, t6, [(1, ident)])"
    unfolding R6_def t5_def using ident gap_chars(1,4) [OF g(3)]
    by (intro ms_Seq_Grp_Plus) (auto simp: R7_def t6_def dest: space_facts)
  define b7 where "b7 = dquote # rev g3 @ rev ident @ rev g2 @ b4"
  have 7: "ms R7 (rev ident @ rev g2 @ b4, t6, [(1, ident)])
         = ms R8 (rev g3 @ rev ident @ rev g2 @ b4, dquote # t7, [(1, ident)])"
    unfolding R7_def t6_def using gap_chars(1,2) [OF g(3)]
    by (intro ms_Seq_Plus) (auto simp: R8_def dest: space_facts)
  have 8: "ms R8 (rev g3 @ rev ident @ rev g2 @ b4, dquote # t7, [(1, ident)])
         = ms R9 (b7, t7, [(1, ident)])"
    unfolding R8_def b7_def using ms_Seq_Lit [of "[dquote]" R9 _ t7] by simp
  have ysc: "\<forall>y\<in>set ys. in_class AnyChar y \<and> y \<noteq> dquote"
    unfolding ys_def
    using gap_chars(3) [OF g(4)] gap_chars(3) [OF g(5)] gap_chars(3) [OF g(6)]
      number_chars_any [OF n(1)] number_chars_any [OF n(2)] number_chars_any [OF n(3)] tail(1,2)
    by (auto simp: anychar_iff)
  have dc: "\<forall>x\<in>set desc. in_class AnyChar x \<and> x \<noteq> dquote"
    using desc by (auto simp: anychar_iff)
  have 9: "ms R9 (b7, t7, [(1, ident)])
         = ms R10 (rev desc @ b7, dquote # ys @ newline # rest, [(2, desc), (1, ident)])"
    unfolding R9_def t7_def
    by (rule ms_Seq_Grp_Plus_until)
       (use desc(1) dc ysc in \<open>auto simp: R10_def anychar_iff\<close>)
  define b10 where "b10 = dquote # rev desc @ b7"
  have 10: "ms R10 (rev desc @ b7, dquote # ys @ newline # rest, [(2, desc), (1, ident)])
         = ms R11 (b10, t10, [(2, desc), (1, ident)])"
    unfolding R10_def b10_def ys10 using ms_Seq_Lit [of "[dquote]" R11 _ t10] by simp
  have h1: "\<not> in_class Space (hd n1)" "\<not> in_class Space (hd n2)" "\<not> in_class Space (hd n3)"
    using number_chars(3) [OF n(1)] number_chars(3) [OF n(2)] number_chars(3) [OF n(3)]
    by (auto dest: number_start_facts)
  have sn: "\<And>d. in_class Space d \<Longrightarrow> \<not> number_start d"
    by (auto dest: number_start_facts)
  have 11: "ms R11 (b10, t10, [(2, desc), (1, ident)])
         = ms R12 (rev g4 @ b10, t11, [(2, desc), (1, ident)])"
    unfolding R11_def t10_def using gap_chars(1,2) [OF g(4)] number_chars(1) [OF n(1)] h1 sn
    by (intro ms_Seq_Plus) (auto simp: R12_def t11_def first_number_rx)
  have 12: "ms R12 (rev g4 @ b10, t11, [(2, desc), (1, ident)])
         = ms R13 (rev n1 @ rev g4 @ b10, t12, [(3, n1), (2, desc), (1, ident)])"
    unfolding R12_def t11_def using n(1) gap_chars(1,4) [OF g(5)]
    by (intro ms_Seq_Grp_number) (auto simp: R13_def t12_def dest: space_facts)
  define b13 where "b13 = rev g5 @ rev n1 @ rev g4 @ b10"
  have 13: "ms R13 (rev n1 @ rev g4 @ b10, t12, [(3, n1), (2, desc), (1, ident)])
         = ms R14 (b13, t13, [(3, n1), (2, desc), (1, ident)])"
    unfolding R13_def t12_def b13_def
    using gap_chars(1,2) [OF g(5)] number_chars(1) [OF n(2)] h1 sn
    by (intro ms_Seq_Plus) (auto simp: R14_def t13_def first_number_rx)
  have 14: "ms R14 (b13, t13, [(3, n1), (2, desc), (1, ident)])
         = ms R15 (rev n2 @ b13, t14, [(4, n2), (3, n1), (2, desc), (1, ident)])"
    unfolding R14_def t13_def using n(2) gap_chars(1,4) [OF g(6)]
    by (intro ms_Seq_Grp_number) (auto simp: R15_def t14_def dest: space_facts)
  have 15: "ms R15 (rev n2 @ b13, t14, [(4, n2), (3, n1), (2, desc), (1, ident)])
         = ms R16 (rev g6 @ rev n2 @ b13, t15, [(4, n2), (3, n1), (2, desc), (1, ident)])"
    unfolding R15_def t14_def
    using gap_chars(1,2) [OF g(6)] number_chars(1) [OF n(3)] h1 sn
    by (intro ms_Seq_Plus) (auto simp: R16_def t15_def first_number_rx)
  define b16 where "b16 = rev g6 @ rev n2 @ b13"
  define c16 :: "(nat \<times> string) list" where "c16 = [(4, n2), (3, n1), (2, desc), (1, ident)]"
  have t16h: "t16 = [] \<or> \<not> in_class DotDigit (hd t16)"
    using tail(3) by (cases tail) (auto simp: t16_def in_class.simps newline_def)
  from ms_Grp_number_hd [OF n(3) t16h, of 5 b16 c16] obtain more1 where
    m1: "ms (Grp 5 number_rx) (b16, n3 @ t16, c16) = (rev n3 @ b16, t16, (5, n3) # c16) # more1"
    by blast
  from tail_ends [OF tail(1) assms(2), of "rev n3 @ b16" "(5, n3) # c16"] obtain cs' more2 where
    m2: "ms R17 (rev n3 @ b16, t16, (5, n3) # c16)
           = (newline # rev tail @ rev n3 @ b16, rest, cs') # more2"
    unfolding R17_def t16_def by blast
  have 16: "ms R16 (b16, t15, c16)
          = (newline # rev tail @ rev n3 @ b16, rest, cs') # (more2 @ concat (map (ms R17) more1))"
    unfolding R16_def t15_def ms.simps(8) m1 using m2 by simp
  have pt: "pragma_text p = lead @ P1 @ g1 @ P2 @ g2 @ ident @ g3 @ dquote # desc @ dquote #
      g4 @ n1 @ g5 @ n2 @ g6 @ n3 @ tail @ [newline]"
    by (simp add: pragma_text_def fields P1_def P2_def)
  have e: "newline # rev tail @ rev n3 @ b16 = rev (pragma_text p) @ b"
    unfolding pt by (simp add: b16_def b13_def b10_def b7_def b4_def)
  from 1 2 3 4 5 6 7 8 9 10 11 12 13 14 15 16 e
  have "ms R1 (b, pragma_text p @ rest, [])
      = (rev (pragma_text p) @ b, rest, cs') # (more2 @ concat (map (ms R17) more1))"
    unfolding whole b16_def c16_def by (simp only:)
  moreover have "R1 = parameter_line_rx"
    unfolding R1_def R2_def R3_def R4_def R5_def R6_def R7_def R8_def R9_def R10_def R11_def
      R12_def R13_def R14_def R15_def R16_def R17_def P1_def P2_def parameter_line_rx_def
    by simp
  ultimately show ?thesis by auto
qed

lemma pragma_text_nonempty: "pragma_text p \<noteq> []"
  by (simp add: pragma_text_def)

lemma pragma_exec:
  assumes "pragma_ok p" and "no_number_ahead rest" and "b = [] \<or> hd b = newline"
  shows "\<exists>cs'. rx_exec parameter_rx b (pragma_text p @ rest) =
           Some (rev (pragma_text p) @ b, rest, cs')"
proof -
  from pragma_ms [OF assms(1,2), of b] obtain cs' more where
    "ms parameter_line_rx (b, pragma_text p @ rest, []) =
       (rev (pragma_text p) @ b, rest, cs') # more" by blast
  with assms(3) pragma_text_nonempty [of p] show ?thesis
    unfolding rx_exec_def parameter_rx_unfold ms_Seq_Bol by (simp del: ms.simps)
qed

lemma parameter_remove_pragma:
  assumes "pragma_ok p" and "no_number_ahead rest" and "b = [] \<or> hd b = newline"
  shows "remove_from parameter_rx b (pragma_text p @ rest) =
           remove_from parameter_rx (rev (pragma_text p) @ b) rest"
proof -
  from pragma_exec [OF assms] obtain cs' where
    "rx_exec parameter_rx b (pragma_text p @ rest) = Some (rev (pragma_text p) @ b, rest, cs')"
    by blast
  then show ?thesis using pragma_text_nonempty by (rule remove_match)
qed

subsection \<open>Lines that are not parameter lines\<close>

lemma parameter_line_unfold: "parameter_line_rx = Seq (Star Space) pragma_rx"
  by (simp add: parameter_line_rx_def pragma_rx_def)

lemma pragma_rx_facts:
  "\<not> nullable pragma_rx" "first pragma_rx d = (d = CHR ''#'')" "needs pragma_rx newline"
  by (auto simp: pragma_rx_def)

lemma parameter_after_space:
  assumes "\<forall>c\<in>set l2. in_class Space c" and "a = [] \<or> \<not> in_class Space (hd a)"
  shows "ms parameter_line_rx (b, l2 @ a, cs) = ms pragma_rx (rev l2 @ b, a, cs)"
  unfolding parameter_line_unfold using assms
  by (intro ms_Seq_Star) (auto simp: pragma_rx_facts dest: space_facts)

lemma parameter_unrelated_fail:
  assumes "\<forall>c\<in>set l2. in_class Space c"
    and "body \<noteq> []" and "\<not> in_class Space (hd body)" and "\<not> prefix ''#pragma'' body"
  shows "rx_exec parameter_rx b (l2 @ body @ newline # rest) = None"
proof -
  define P1 where "P1 = ''#pragma''"
  have 1: "ms parameter_line_rx (b, l2 @ (body @ newline # rest), [])
         = ms pragma_rx (rev l2 @ b, body @ newline # rest, [])"
    using assms(1,2,3) by (intro parameter_after_space) (simp_all add: hd_append)
  have "take (length P1) (body @ newline # rest) \<noteq> P1"
    unfolding P1_def using assms(4) by (rule take_literal_differs) (simp add: newline_def)
  then have "ms (Lit P1) (rev l2 @ b, body @ newline # rest, []) = []"
    by simp
  then have "ms pragma_rx (rev l2 @ b, body @ newline # rest, []) = []"
    unfolding pragma_rx_def seqs.simps ms.simps(8) P1_def by simp
  with 1 show ?thesis
    unfolding rx_exec_def parameter_rx_unfold ms_Seq_Bol by (simp del: ms.simps)
qed

lemma parameter_trailer_fail:
  assumes "\<forall>c\<in>set l2. in_class Space c"
    and "newline \<notin> set t" and "t = [] \<or> \<not> in_class Space (hd t)"
  shows "rx_exec parameter_rx b (l2 @ t) = None"
proof -
  have "ms parameter_line_rx (b, l2 @ t, []) = ms pragma_rx (rev l2 @ b, t, [])"
    using assms(1,3) by (rule parameter_after_space)
  also have "\<dots> = []"
    using pragma_rx_facts(3) assms(2) by (rule ms_fail_needs)
  finally show ?thesis
    unfolding rx_exec_def parameter_rx_unfold ms_Seq_Bol by (simp del: ms.simps)
qed

subsection \<open>Scanning over white space and over a line\<close>

lemma remove_over_lead:
  assumes "\<And>l2 b'. set l2 \<subseteq> set lead \<Longrightarrow> rx_exec r b' (l2 @ a) = None"
  shows "remove_from r b (lead @ a) = lead @ remove_from r (rev lead @ b) a"
proof (rule remove_skip_all)
  fix u1 u2
  assume "lead = u1 @ u2"
  then have "set u2 \<subseteq> set lead" by auto
  then show "rx_exec r (rev u1 @ b) (u2 @ a) = None" by (rule assms)
qed

lemma line_inside_no_match:
  assumes "newline \<notin> set v" and "b \<noteq> []" and "hd b \<noteq> newline"
    and "v = u1 @ u2"
  shows "rx_exec (Seq Bol r) (rev u1 @ b) (u2 @ rest) = None"
proof (rule exec_not_bol)
  show "rev u1 @ b \<noteq> []" using assms(2) by simp
  show "hd (rev u1 @ b) \<noteq> newline"
  proof (cases u1 rule: rev_cases)
    case Nil
    with assms(3) show ?thesis by simp
  next
    case (snoc ys y)
    with assms(4) have "y \<in> set v" by simp
    with assms(1) snoc show ?thesis by auto
  qed
qed

lemma remove_over_line:
  assumes "body \<noteq> []" and "newline \<notin> set body"
    and "rx_exec (Seq Bol r) b (body @ newline # rest) = None"
  shows "remove_from (Seq Bol r) b (body @ newline # rest) =
           body @ newline # remove_from (Seq Bol r) (newline # rev body @ b) rest"
proof -
  from assms(1) obtain x v where body: "body = x # v" by (cases body) auto
  with assms(2) have x: "x \<noteq> newline" and v: "newline \<notin> set v" by auto
  have "remove_from (Seq Bol r) (x # b) ((v @ [newline]) @ rest) =
          (v @ [newline]) @ remove_from (Seq Bol r) (rev (v @ [newline]) @ x # b) rest"
    by (rule remove_skip_all) (rule line_rest_no_match [OF v], use x in simp_all)
  with assms(3) show ?thesis by (simp add: body)
qed

lemma remove_over_last_line:
  assumes "newline \<notin> set t"
    and "rx_exec (Seq Bol r) b t = None"
  shows "remove_from (Seq Bol r) b t = t"
proof (cases t)
  case Nil
  then show ?thesis by simp
next
  case (Cons x v)
  with assms(1) have x: "x \<noteq> newline" and v: "newline \<notin> set v" by auto
  have "remove_from (Seq Bol r) (x # b) (v @ []) =
          v @ remove_from (Seq Bol r) (rev v @ x # b) []"
    by (rule remove_skip_all) (rule line_inside_no_match [OF v], use x in simp_all)
  with assms(2) show ?thesis by (simp add: Cons)
qed

subsection \<open>Sources described line by line\<close>

lemma no_number_ahead_text:
  assumes "\<forall>c\<in>set l. in_class Space c" and "\<not> in_class Space c" and "\<not> number_start c"
  shows "no_number_ahead (l @ c # others)"
proof -
  from assms(1,2) have "dropWhile (in_class Space) (l @ c # others) = c # others"
    by (simp add: dropWhile_append3)
  with assms(3) show ?thesis by (simp add: no_number_ahead_def)
qed

lemma no_number_ahead_space:
  assumes "\<forall>c\<in>set l. in_class Space c"
  shows "no_number_ahead l"
  using assms by (simp add: no_number_ahead_def dropWhile_eq_Nil_conv [THEN iffD2])

lemma hash_not_number_start [simp]: "\<not> number_start CHR ''#''"
  by (simp add: number_start_def in_class.simps)

lemma pchunk_text_shape:
  assumes "pchunk_ok ch"
  obtains l c others where "pchunk_text ch = l @ c # others" and "\<forall>c\<in>set l. in_class Space c"
    and "\<not> in_class Space c" and "\<not> number_start c"
proof (cases ch)
  case (Parameter p)
  show ?thesis
  proof (rule that)
    show "pchunk_text ch = p_lead p @ CHR ''#'' # (''pragma'' @ p_gap1 p @ ''parameter'' @
      p_gap2 p @ p_identifier p @ p_gap3 p @
      [dquote] @ p_description p @ [dquote] @ p_gap4 p @ p_initial p @ p_gap5 p @
      p_minimum p @ p_gap6 p @ p_maximum p @ p_tail p @ [newline])"
      by (simp add: Parameter pragma_text_def)
    from assms Parameter show "\<forall>c\<in>set (p_lead p). in_class Space c"
      by (simp add: pragma_ok_def list_all_iff)
    show "\<not> in_class Space CHR ''#''" by simp
    show "\<not> number_start CHR ''#''" by simp
  qed
next
  case (Unrelated lead body)
  with assms obtain x v where "body = x # v" by (cases body) auto
  with assms Unrelated have "pchunk_text ch = lead @ x # (v @ [newline])"
    "\<forall>c\<in>set lead. in_class Space c" "\<not> in_class Space x" "\<not> number_start x"
    by (simp_all add: list_all_iff)
  then show ?thesis by (rule that)
qed

lemma no_number_ahead_chunks:
  assumes "list_all pchunk_ok chunks" and "trailer_ok lead t"
  shows "no_number_ahead (concat (map pchunk_text chunks) @ lead @ t)"
proof (cases chunks)
  case Nil
  from assms(2) have l: "\<forall>c\<in>set lead. in_class Space c"
    by (simp add: trailer_ok_def list_all_iff)
  show ?thesis
  proof (cases t)
    case Nil
    with \<open>chunks = []\<close> l show ?thesis by (simp add: no_number_ahead_space)
  next
    case (Cons c others)
    with assms(2) have "\<not> in_class Space c" "\<not> number_start c"
      by (simp_all add: trailer_ok_def)
    with l have "no_number_ahead (lead @ c # others)" by (rule no_number_ahead_text)
    with Cons \<open>chunks = []\<close> show ?thesis by simp
  qed
next
  case (Cons ch chs)
  with assms(1) have "pchunk_ok ch" by simp
  then obtain l c others where s: "pchunk_text ch = l @ c # others"
    and "\<forall>c\<in>set l. in_class Space c" "\<not> in_class Space c" "\<not> number_start c"
    by (rule pchunk_text_shape)
  then have "no_number_ahead (l @ c # (others @ concat (map pchunk_text chs) @ lead @ t))"
    by (intro no_number_ahead_text)
  with Cons s show ?thesis by simp
qed

lemma parameter_remove_unrelated:
  assumes "pchunk_ok (Unrelated lead body)"
  shows "remove_from parameter_rx b (pchunk_text (Unrelated lead body) @ rest) =
           pchunk_text (Unrelated lead body) @
           remove_from parameter_rx (rev (pchunk_text (Unrelated lead body)) @ b) rest"
proof -
  from assms have ok: "\<forall>c\<in>set lead. in_class Space c" "body \<noteq> []"
    "\<not> in_class Space (hd body)" "newline \<notin> set body" "\<not> prefix ''#pragma'' body"
    by (simp_all add: list_all_iff)
  have 1: "remove_from parameter_rx b (lead @ (body @ newline # rest)) =
           lead @ remove_from parameter_rx (rev lead @ b) (body @ newline # rest)"
  proof (rule remove_over_lead)
    fix l2 b'
    assume "set l2 \<subseteq> set lead"
    with ok(1) have "\<forall>c\<in>set l2. in_class Space c" by auto
    then show "rx_exec parameter_rx b' (l2 @ body @ newline # rest) = None"
      using ok(2,3,5) by (rule parameter_unrelated_fail)
  qed
  have "rx_exec parameter_rx (rev lead @ b) ([] @ body @ newline # rest) = None"
    using ok(2,3,5) by (intro parameter_unrelated_fail) simp
  then have 2: "remove_from parameter_rx (rev lead @ b) (body @ newline # rest) =
           body @ newline # remove_from parameter_rx (newline # rev body @ rev lead @ b) rest"
    unfolding parameter_rx_unfold using ok(2,4) by (intro remove_over_line) simp_all
  from 1 2 show ?thesis by simp
qed

lemma parameter_remove_trailer:
  assumes "trailer_ok lead t"
  shows "remove_from parameter_rx b (lead @ t) = lead @ t"
proof -
  from assms have ok: "\<forall>c\<in>set lead. in_class Space c" "newline \<notin> set t"
    "t = [] \<or> \<not> in_class Space (hd t)"
    by (auto simp: trailer_ok_def list_all_iff)
  have 1: "remove_from parameter_rx b (lead @ t) =
           lead @ remove_from parameter_rx (rev lead @ b) t"
  proof (rule remove_over_lead)
    fix l2 b'
    assume "set l2 \<subseteq> set lead"
    with ok(1) have "\<forall>c\<in>set l2. in_class Space c" by auto
    then show "rx_exec parameter_rx b' (l2 @ t) = None"
      using ok(2,3) by (rule parameter_trailer_fail)
  qed
  have "rx_exec parameter_rx (rev lead @ b) ([] @ t) = None"
    using ok(2,3) by (intro parameter_trailer_fail) simp
  then have "remove_from parameter_rx (rev lead @ b) t = t"
    unfolding parameter_rx_unfold using ok(2) by (intro remove_over_last_line) simp_all
  with 1 show ?thesis by simp
qed

lemma pchunk_text_ends: "hd (rev (pchunk_text ch) @ b) = newline"
  by (cases ch) (simp_all add: pragma_text_def)

lemma parameter_remove_chunks:
  assumes "list_all pchunk_ok chunks" and "trailer_ok lead t" and "b = [] \<or> hd b = newline"
  shows "remove_from parameter_rx b (concat (map pchunk_text chunks) @ lead @ t) =
           concat (map pchunk_kept chunks) @ lead @ t"
  using assms(1,3)
proof (induction chunks arbitrary: b)
  case Nil
  then show ?case by (simp add: parameter_remove_trailer [OF assms(2)])
next
  case (Cons ch chunks)
  from Cons.prems have ok: "pchunk_ok ch" and oks: "list_all pchunk_ok chunks" by simp_all
  have IH: "remove_from parameter_rx (rev (pchunk_text ch) @ b)
              (concat (map pchunk_text chunks) @ lead @ t)
              = concat (map pchunk_kept chunks) @ lead @ t"
    using oks by (rule Cons.IH) (simp add: pchunk_text_ends)
  show ?case
  proof (cases ch)
    case (Parameter p)
    from oks assms(2) have "no_number_ahead (concat (map pchunk_text chunks) @ lead @ t)"
      by (rule no_number_ahead_chunks)
    with Parameter ok Cons.prems(2) IH
      parameter_remove_pragma [of p "concat (map pchunk_text chunks) @ lead @ t" b]
    show ?thesis by simp
  next
    case (Unrelated l body)
    with ok IH
      parameter_remove_unrelated [of l body b "concat (map pchunk_text chunks) @ lead @ t"]
    show ?thesis by simp
  qed
qed

section \<open>Removal of the parameter lines\<close>

text \<open>
  On a source of the following shape the removal takes the parameter lines and nothing
  else of the other lines: every line is ended by a newline and is either a parameter
  declaration on one line or a line that starts, after its white space, neither with
  \<open>#pragma\<close> nor like a number.
\<close>

lemma parameter_lines_removed:
  assumes "list_all pchunk_ok chunks" and "trailer_ok lead t"
  shows "qstring_remove (concat (map pchunk_text chunks) @ lead @ t) parameter_rx =
           concat (map pchunk_kept chunks) @ lead @ t"
  unfolding qstring_remove_def
  by (rule parameter_remove_chunks [OF assms]) simp

lemma parameter_lines_removed_example:
  \<open>qstring_remove
     ''#version 130\<newline>\<newline>#pragma parameter GAMMA "Gamma value" 2.2 0.0 4.0 0.1 // step\<newline>#pragma parameter BIAS "Bias" -1 -2 2\<newline>  void main(){}\<newline>#pragma parameter LAST "Last" 1 0 2''
     parameter_rx =
   ''#version 130\<newline>  void main(){}\<newline>#pragma parameter LAST "Last" 1 0 2''\<close>
  using parameter_lines_removed [of example_chunks "[]" example_last_line]
  by (simp add: example_chunks_def example_parameter_def example_parameter2_def
      example_last_line_def pragma_text_def pragma_ok_def gap_def trailer_ok_def
      number_start_def in_class.simps newline_def dquote_def)

text \<open>
  C6. The code departs from the claim, and from its own comment \<open>Remove parameter lines\<close>,
  in what the pattern takes. The pattern ends in a newline, so a parameter line that is
  the last line of the source and has no newline is not removed. Its white space also
  matches newlines, so the blank line before a parameter line and a following line that
  starts with a number are removed with it, and a declaration broken after
  \<open>#pragma parameter\<close> takes the next line with it.
\<close>

theorem parameter_removal_defects:
  \<open>qstring_remove ''#pragma parameter X "d" 1 0 2'' parameter_rx =
     ''#pragma parameter X "d" 1 0 2''
   \<and> qstring_remove ''void main(){}\<newline>#pragma parameter X "d" 1 0 2'' parameter_rx =
     ''void main(){}\<newline>#pragma parameter X "d" 1 0 2''
   \<and> qstring_remove
       ''a;\<newline>\<newline>#pragma parameter X "d" 1 0 2\<newline>3 + y;\<newline>z;\<newline>'' parameter_rx =
     ''a;\<newline>z;\<newline>''
   \<and> qstring_remove ''#pragma parameter\<newline>foo "bar" 1 2 3\<newline>keep;\<newline>'' parameter_rx =
     ''keep;\<newline>''\<close>
  by code_simp

end
